theory Spec2Isabelle
  imports Main "HOL-Library.Word"
begin

unbundle bit_operations_syntax

section \<open>Errors\<close>

text \<open>
  Every way the two generators can stop without a result is a constructor:
  the three exceptions thrown by \<^verbatim>\<open>add_impl.hpp\<close>, the \<^verbatim>\<open>assert\<close> of
  \<^verbatim>\<open>copy_impl.hpp\<close>, the bounds and size checks of the Armadillo accessors the
  code calls, and \<open>EmptyRange\<close>, which marks a call of the random integer draw on
  an empty range: the specification gives such a call no result.
\<close>

datatype error =
    InvalidArgument
  | DomainError
  | LogicError
  | AssertionFailure
  | IndexOutOfBounds
  | SizeMismatch
  | EmptyRange

text \<open>
  A loop over the batch whose body may throw: the first error ends it, as the
  exception would.
\<close>

fun mapM :: "('a \<Rightarrow> error + 'b) \<Rightarrow> 'a list \<Rightarrow> error + 'b list" where
  "mapM f [] = Inr []"
| "mapM f (x # xs) =
     (case f x of
        Inl e \<Rightarrow> Inl e
      | Inr y \<Rightarrow> (case mapM f xs of Inl e \<Rightarrow> Inl e | Inr ys \<Rightarrow> Inr (y # ys)))"

section \<open>Dense matrices and column vectors\<close>

text \<open>
  An \<^verbatim>\<open>arma::mat\<close> is its shape and its memory in column-major order; element
  \<open>(r, c)\<close> lives at index \<open>c * n_rows + r\<close>. The generators only ever store the
  values 0, 1 and 2 in it, which a double holds exactly, so the element type is
  \<open>int\<close>. An \<^verbatim>\<open>arma::colvec\<close> is the list of its elements, and a
  \<^verbatim>\<open>field\<close> of matrices is a list of matrices.
\<close>

record mat =
  n_rows :: nat
  n_cols :: nat
  mem :: "int list"

definition n_elem :: "mat \<Rightarrow> nat" where
  "n_elem m = n_rows m * n_cols m"

definition zeros :: "nat \<Rightarrow> nat \<Rightarrow> mat" where
  "zeros r c = \<lparr>n_rows = r, n_cols = c, mem = replicate (r * c) 0\<rparr>"

definition ones :: "nat \<Rightarrow> int list" where
  "ones n = replicate n 1"

text \<open>
  \<^verbatim>\<open>reshape\<close> keeps the elements in column-major order; when the new shape has
  more elements than the old one the remaining ones are set to zero, when it has
  fewer the tail is dropped.
\<close>

definition reshape :: "nat \<Rightarrow> nat \<Rightarrow> mat \<Rightarrow> mat" where
  "reshape r c m =
     \<lparr>n_rows = r, n_cols = c,
      mem = take (r * c) (mem m) @ replicate (r * c - length (mem m)) 0\<rparr>"

text \<open>Writing one element; an index outside the matrix is an error.\<close>

definition at_put :: "mat \<Rightarrow> nat \<Rightarrow> nat \<Rightarrow> int \<Rightarrow> error + mat" where
  "at_put m r c v =
     (if r < n_rows m \<and> c < n_cols m
      then Inr (m\<lparr>mem := (mem m)[c * n_rows m + r := v]\<rparr>)
      else Inl IndexOutOfBounds)"

section \<open>Unsigned sizes\<close>

text \<open>
  \<^verbatim>\<open>size_t\<close> is a 64-bit unsigned integer; its values are natural numbers here.
  A sum or difference that the code computes on a task parameter or on an element
  count, and passes on as a bound, wraps around at \<open>2 ^ 64\<close>. The element counts
  of the vectors that the code allocates are added as natural numbers: a vector
  that is held in memory has far fewer than \<open>2 ^ 64\<close> elements.
\<close>

definition size_t_plus :: "nat \<Rightarrow> nat \<Rightarrow> nat" where
  "size_t_plus a b = unat (word_of_nat a + word_of_nat b :: 64 word)"

definition size_t_minus :: "nat \<Rightarrow> nat \<Rightarrow> nat" where
  "size_t_minus a b = (if b \<le> a then a - b else a + 2 ^ 64 - b)"

section \<open>The random source\<close>

text \<open>
  The generators draw from a global random number generator. The model takes the
  raw outcomes as an argument: for each batch item, the raw numbers behind its two
  length draws and behind each of its bits.
\<close>

record draws =
  drawA :: nat
  drawB :: nat
  drawBits :: "nat \<Rightarrow> nat"

text \<open>
  Modelled from the spec: \<^verbatim>\<open>mlpack::math::RandInt\<close> is declared outside the two
  source files. The spec describes it as a uniform random integer draw
  \<^verbatim>\<open>RandInt(low, highExclusive)\<close>, so its result lies in
  \<open>[low, highExclusive)\<close>; the raw outcome is reduced into that range. The spec
  says nothing about a call whose range is empty. The model gives such a call no
  result and marks it \<open>EmptyRange\<close>; what the library does there is not known,
  and no statement below is about such a call: each is made where the range of
  every draw is not empty, or of a batch that was returned.
\<close>

definition RandInt :: "nat \<Rightarrow> nat \<Rightarrow> nat \<Rightarrow> error + nat" where
  "RandInt lo hiExclusive raw =
     (if lo < hiExclusive then Inr (lo + raw mod (hiExclusive - lo)) else Inl EmptyRange)"

text \<open>
  \<^verbatim>\<open>arma::randi<colvec>(n, distr_param(a, b))\<close>: \<open>n\<close> integers, each in the
  inclusive range \<open>[a, b]\<close>.
\<close>

definition randi :: "nat \<Rightarrow> nat \<Rightarrow> nat \<Rightarrow> (nat \<Rightarrow> nat) \<Rightarrow> int list" where
  "randi n a b raw = map (\<lambda>k. int (a + raw k mod (b - a + 1))) [0..<n]"

section \<open>AddTask\<close>

record AddTask =
  bitLen :: nat

text \<open>The constructor throws \<^verbatim>\<open>std::invalid_argument\<close> when \<^verbatim>\<open>bitLen <= 0\<close>.\<close>

definition AddTask_new :: "nat \<Rightarrow> error + AddTask" where
  "AddTask_new bl = (if bl \<le> 0 then Inl InvalidArgument else Inr \<lparr>bitLen = bl\<rparr>)"

subsection \<open>Binarize\<close>

text \<open>
  The inner loop of \<^verbatim>\<open>Binarize\<close>: for position \<open>j\<close> holding \<open>val\<close>, set element
  \<open>(val, j)\<close> of the 3-row matrix to one. The conversion of the stored value to
  \<^verbatim>\<open>size_t\<close> is undefined for a negative value, and the unchecked write is
  undefined for a row beyond the third; both are errors here.
\<close>

fun Binarize_loop :: "int list \<Rightarrow> nat \<Rightarrow> mat \<Rightarrow> error + mat" where
  "Binarize_loop [] j out = Inr out"
| "Binarize_loop (x # xs) j out =
     (if x < 0 then Inl IndexOutOfBounds
      else case at_put out (nat x) j 1 of
             Inl e \<Rightarrow> Inl e
           | Inr out' \<Rightarrow> Binarize_loop xs (Suc j) out')"

definition Binarize_item :: "int list \<Rightarrow> error + mat" where
  "Binarize_item v =
     (case Binarize_loop v 0 (zeros 3 (length v)) of
        Inl e \<Rightarrow> Inl e
      | Inr out \<Rightarrow> Inr (reshape (n_elem out) 1 out))"

definition Binarize :: "int list list \<Rightarrow> error + mat list" where
  "Binarize input = mapM Binarize_item input"

subsection \<open>Generate, field form\<close>

text \<open>
  The lengths of the two operands: \<open>bitLen\<close> each, or two draws from
  \<^verbatim>\<open>RandInt(2, bitLen + 1)\<close>. The upper bound is a \<^verbatim>\<open>size_t\<close> sum: it is 0 when
  \<open>bitLen\<close> is the largest \<^verbatim>\<open>size_t\<close> value.
\<close>

definition choose_sizes :: "nat \<Rightarrow> bool \<Rightarrow> draws \<Rightarrow> error + (nat \<times> nat)" where
  "choose_sizes bl fixedLength d =
     (if \<not> fixedLength
      then (case RandInt 2 (size_t_plus bl 1) (drawA d) of
              Inl e \<Rightarrow> Inl e
            | Inr sizeA \<Rightarrow>
                (case RandInt 2 (size_t_plus bl 1) (drawB d) of
                   Inl e \<Rightarrow> Inl e
                 | Inr sizeB \<Rightarrow> Inr (sizeA, sizeB)))
      else Inr (bl, bl))"

definition make_input :: "nat \<Rightarrow> nat \<Rightarrow> (nat \<Rightarrow> nat) \<Rightarrow> int list" where
  "make_input sizeA sizeB raw = (randi (sizeA + sizeB + 1) 0 1 raw)[sizeA := 2]"

text \<open>
  The operand accumulators are C++ \<^verbatim>\<open>int\<close>s: 32 bits, two's complement. The
  shift and the additions wrap around, as they do on the machines the library
  runs on; the language itself leaves an overflowing signed addition undefined.
\<close>

definition bits_value :: "int list \<Rightarrow> nat \<Rightarrow> nat \<Rightarrow> 32 word" where
  "bits_value v lo hi =
     foldl (\<lambda>val k. push_bit 1 val + word_of_int (v ! k)) 0 [lo..<hi]"

text \<open>
  The \<^verbatim>\<open>while (tot > 0)\<close> loop: the bits of \<open>tot\<close> are pushed to the back of
  \<open>binarySeq\<close>, least significant first. It ends because a positive \<open>tot\<close> is
  halved.
\<close>

function binary_loop :: "32 word \<Rightarrow> 32 word list \<Rightarrow> 32 word list" where
  "binary_loop tot binarySeq =
     (if 0 < sint tot
      then binary_loop (signed_drop_bit 1 tot) (binarySeq @ [tot AND 1])
      else binarySeq)"
  by pat_completeness auto
termination
proof (relation "measure (\<lambda>(tot, binarySeq). nat (sint tot))")
  show "wf (measure (\<lambda>(tot :: 32 word, binarySeq :: 32 word list). nat (sint tot)))"
    by simp
next
  fix tot :: "32 word" and binarySeq :: "32 word list"
  assume "0 < sint tot"
  then show "((signed_drop_bit 1 tot, binarySeq @ [tot AND 1]), (tot, binarySeq))
      \<in> measure (\<lambda>(tot, binarySeq). nat (sint tot))"
    by (simp add: sint_signed_drop_bit_eq drop_bit_eq_div)
qed

declare binary_loop.simps [simp del]

text \<open>
  The label vector reads \<open>binarySeq\<close> backwards: entry \<open>j\<close> is
  \<open>binarySeq[totLen - j - 1]\<close>, stored as a double.
\<close>

definition reversed :: "32 word list \<Rightarrow> int list" where
  "reversed binarySeq =
     map (\<lambda>j. sint (binarySeq ! (length binarySeq - j - 1))) [0..<length binarySeq]"

text \<open>
  From \<^verbatim>\<open>int tot = valA + valB\<close> to the label vector: an empty \<open>binarySeq\<close>
  raises the domain error when the sum is not zero and becomes the single digit 0
  otherwise.
\<close>

definition make_label :: "32 word \<Rightarrow> 32 word \<Rightarrow> error + int list" where
  "make_label valA valB =
     (let binarySeq = binary_loop (valA + valB) [] in
      if binarySeq = []
      then (if valA + valB \<noteq> 0 then Inl DomainError else Inr (reversed [0]))
      else Inr (reversed binarySeq))"

text \<open>One pass of the loop over the batch: the input sequence and its label.\<close>

definition Generate_item :: "nat \<Rightarrow> bool \<Rightarrow> draws \<Rightarrow> error + (int list \<times> int list)" where
  "Generate_item bl fixedLength d =
     (case choose_sizes bl fixedLength d of
        Inl e \<Rightarrow> Inl e
      | Inr (sizeA, sizeB) \<Rightarrow>
          (let vecInput = make_input sizeA sizeB (drawBits d);
               valA = bits_value vecInput 0 sizeA;
               valB = bits_value vecInput (sizeA + 1) (sizeA + 1 + sizeB)
           in case make_label valA valB of
                Inl e \<Rightarrow> Inl e
              | Inr vecLabel \<Rightarrow> Inr (vecInput, vecLabel)))"

text \<open>The first loop of \<^verbatim>\<open>Generate\<close>: the sequences before they are encoded.\<close>

definition Generate_vecs ::
  "AddTask \<Rightarrow> nat \<Rightarrow> bool \<Rightarrow> (nat \<Rightarrow> draws) \<Rightarrow> error + (int list \<times> int list) list" where
  "Generate_vecs t batchSize fixedLength rnd =
     mapM (\<lambda>i. Generate_item (bitLen t) fixedLength (rnd i)) [0..<batchSize]"

text \<open>
  The field form: both batches are encoded, their item counts compared, and every
  label is reshaped to a single column with the element count of the input of the
  same index.
\<close>

definition Generate ::
  "AddTask \<Rightarrow> nat \<Rightarrow> bool \<Rightarrow> (nat \<Rightarrow> draws) \<Rightarrow> error + (mat list \<times> mat list)" where
  "Generate t batchSize fixedLength rnd =
     (case Generate_vecs t batchSize fixedLength rnd of
        Inl e \<Rightarrow> Inl e
      | Inr items \<Rightarrow>
          (case Binarize (map fst items) of
             Inl e \<Rightarrow> Inl e
           | Inr input \<Rightarrow>
               (case Binarize (map snd items) of
                  Inl e \<Rightarrow> Inl e
                | Inr labels \<Rightarrow>
                    if length input \<noteq> length labels then Inl LogicError
                    else Inr (input,
                              map (\<lambda>i. reshape (n_elem (input ! i)) 1 (labels ! i))
                                [0..<length input]))))"

subsection \<open>Generate, dense form\<close>

text \<open>
  \<^verbatim>\<open>set_size\<close> leaves the contents unspecified; every column is overwritten by
  the loop that follows, so the model starts from zeros. Assigning to a column
  checks the column index and that the shapes agree.
\<close>

definition set_size :: "nat \<Rightarrow> nat \<Rightarrow> mat" where
  "set_size r c = zeros r c"

definition set_col :: "mat \<Rightarrow> nat \<Rightarrow> mat \<Rightarrow> error + mat" where
  "set_col m i x =
     (if \<not> i < n_cols m then Inl IndexOutOfBounds
      else if n_rows x \<noteq> n_rows m \<or> n_cols x \<noteq> 1 then Inl SizeMismatch
      else Inr (m\<lparr>mem := take (i * n_rows m) (mem m) @ mem x
                          @ drop ((i + 1) * n_rows m) (mem m)\<rparr>))"

fun pack_loop ::
  "mat list \<Rightarrow> mat list \<Rightarrow> nat list \<Rightarrow> mat \<Rightarrow> mat \<Rightarrow> error + (mat \<times> mat)" where
  "pack_loop fieldInput fieldLabels [] input labels = Inr (input, labels)"
| "pack_loop fieldInput fieldLabels (i # rest) input labels =
     (case set_col input i (fieldInput ! i) of
        Inl e \<Rightarrow> Inl e
      | Inr input' \<Rightarrow>
          (case set_col labels i (fieldLabels ! i) of
             Inl e \<Rightarrow> Inl e
           | Inr labels' \<Rightarrow> pack_loop fieldInput fieldLabels rest input' labels'))"

text \<open>
  The checked accessor \<^verbatim>\<open>fieldInput(0)\<close> fails on an empty field.
\<close>

definition Generate_dense ::
  "AddTask \<Rightarrow> nat \<Rightarrow> (nat \<Rightarrow> draws) \<Rightarrow> error + (mat \<times> mat)" where
  "Generate_dense t batchSize rnd =
     (case Generate t batchSize True rnd of
        Inl e \<Rightarrow> Inl e
      | Inr (fieldInput, fieldLabels) \<Rightarrow>
          if fieldInput = [] \<or> fieldLabels = [] then Inl IndexOutOfBounds
          else pack_loop fieldInput fieldLabels [0..<batchSize]
                 (set_size (n_rows (fieldInput ! 0)) batchSize)
                 (set_size (n_rows (fieldLabels ! 0)) batchSize))"

section \<open>CopyTask\<close>

record CopyTask =
  maxLength :: nat
  nRepeats :: nat


record copy_draws =
  drawSize :: nat
  drawSeq :: "nat \<Rightarrow> nat"

text \<open>\<^verbatim>\<open>repmat(v, n, 1)\<close> of a column: \<open>n\<close> copies stacked on top of each other.\<close>

definition repmat :: "int list \<Rightarrow> nat \<Rightarrow> int list" where
  "repmat v n = concat (replicate n v)"

text \<open>
  \<^verbatim>\<open>m.col(c).rows(r1, r2) = x\<close>: the range must satisfy \<open>r1 \<le> r2 < n_rows\<close>, and
  \<open>x\<close> must have as many elements as the range.
\<close>

definition set_col_rows :: "mat \<Rightarrow> nat \<Rightarrow> nat \<Rightarrow> nat \<Rightarrow> int list \<Rightarrow> error + mat" where
  "set_col_rows m c r1 r2 x =
     (if \<not> (c < n_cols m \<and> r1 \<le> r2 \<and> r2 < n_rows m) then Inl IndexOutOfBounds
      else if length x \<noteq> r2 - r1 + 1 then Inl SizeMismatch
      else Inr (m\<lparr>mem := take (c * n_rows m + r1) (mem m) @ x
                          @ drop (c * n_rows m + r2 + 1) (mem m)\<rparr>))"

text \<open>
  The transpose: element \<open>(r, c)\<close> of the result is element \<open>(c, r)\<close> of the
  argument.
\<close>

definition mat_t :: "mat \<Rightarrow> mat" where
  "mat_t m =
     \<lparr>n_rows = n_cols m, n_cols = n_rows m,
      mem = map (\<lambda>k. mem m ! ((k mod n_cols m) * n_rows m + k div n_cols m))
              [0..<n_rows m * n_cols m]\<rparr>"

text \<open>
  One pass of the loop of CopyTask's \<^verbatim>\<open>Generate\<close>. The bound \<^verbatim>\<open>maxLength + 1\<close> of
  the draw is a \<^verbatim>\<open>size_t\<close> sum.
\<close>

definition Copy_item :: "nat \<Rightarrow> nat \<Rightarrow> copy_draws \<Rightarrow> error + (mat \<times> mat)" where
  "Copy_item ml nr d =
     (case RandInt 2 (size_t_plus ml 1) (drawSize d) of
        Inl e \<Rightarrow> Inl e
      | Inr sz \<Rightarrow>
          (let vecInput = randi sz 0 1 (drawSeq d);
               vecLabel = repmat vecInput nr;
               totSize = length vecInput + length vecLabel
           in case set_col_rows (zeros totSize 2) 0 0
                     (size_t_minus (length vecInput) 1) vecInput of
                Inl e \<Rightarrow> Inl e
              | Inr input1 \<Rightarrow>
                  (case set_col_rows input1 1 (length vecInput) (size_t_minus totSize 1)
                          (ones (size_t_minus totSize (length vecInput))) of
                     Inl e \<Rightarrow> Inl e
                   | Inr input2 \<Rightarrow>
                       (let input3 = mat_t input2;
                            input4 = reshape (n_elem input3) 1 input3
                        in case set_col_rows (zeros totSize 1) 0 (length vecInput)
                                  (size_t_minus totSize 1) vecLabel of
                             Inl e \<Rightarrow> Inl e
                           | Inr label \<Rightarrow> Inr (input4, label)))))"

text \<open>
  CopyTask's \<^verbatim>\<open>Generate\<close>. It carries the prefix \<open>Copy\<close> because AddTask's method
  has the same name.
\<close>

definition Copy_Generate ::
  "CopyTask \<Rightarrow> nat \<Rightarrow> (nat \<Rightarrow> copy_draws) \<Rightarrow> error + (mat list \<times> mat list)" where
  "Copy_Generate t batchSize rnd =
     (case mapM (\<lambda>i. Copy_item (maxLength t) (nRepeats t) (rnd i)) [0..<batchSize] of
        Inl e \<Rightarrow> Inl e
      | Inr items \<Rightarrow> Inr (map fst items, map snd items))"

section \<open>The encoding and its inverse, as the specification words them\<close>

text \<open>
  One-hot encoding over the alphabet \<open>{0, 1, 2}\<close>: a symbol \<open>v\<close> becomes the
  indicator vector of length 3 with its single 1 at position \<open>v\<close>.
\<close>

definition onehot :: "int \<Rightarrow> int list" where
  "onehot v = [if v = 0 then 1 else 0, if v = 1 then 1 else 0, if v = 2 then 1 else 0]"

text \<open>The column holding the one-hot encoding of a whole sequence.\<close>

definition encoded :: "int list \<Rightarrow> mat" where
  "encoded v = \<lparr>n_rows = 3 * length v, n_cols = 1, mem = concat (map onehot v)\<rparr>"

text \<open>
  The label column as \<^verbatim>\<open>Generate\<close> returns it: the encoded label reshaped to the
  element count of the encoded input.
\<close>

definition padded :: "int list \<times> int list \<Rightarrow> mat" where
  "padded p = reshape (n_elem (encoded (fst p))) 1 (encoded (snd p))"

text \<open>Big-endian binary to integer.\<close>

definition decode_be :: "int list \<Rightarrow> int" where
  "decode_be bits = foldl (\<lambda>acc b. 2 * acc + b) 0 bits"

text \<open>
  Reading a column back: consecutive triples are decoded as long as they are
  indicator vectors; the first triple that is not one ends the sequence.
\<close>

fun symbol_of :: "int \<Rightarrow> int \<Rightarrow> int \<Rightarrow> int option" where
  "symbol_of a b c =
     (if a = 1 \<and> b = 0 \<and> c = 0 then Some 0
      else if a = 0 \<and> b = 1 \<and> c = 0 then Some 1
      else if a = 0 \<and> b = 0 \<and> c = 1 then Some 2
      else None)"

fun unbinarize :: "int list \<Rightarrow> int list" where
  "unbinarize (a # b # c # rest) =
     (case symbol_of a b c of Some s \<Rightarrow> s # unbinarize rest | None \<Rightarrow> [])"
| "unbinarize rest = []"

text \<open>Operand A is what precedes the separator 2, operand B what follows it.\<close>

definition operandA :: "int list \<Rightarrow> int list" where
  "operandA syms = takeWhile (\<lambda>s. s \<noteq> 2) syms"

definition operandB :: "int list \<Rightarrow> int list" where
  "operandB syms = tl (dropWhile (\<lambda>s. s \<noteq> 2) syms)"

text \<open>A matrix whose memory has as many elements as its shape says.\<close>

definition well_formed :: "mat \<Rightarrow> bool" where
  "well_formed m \<longleftrightarrow> length (mem m) = n_rows m * n_cols m"

text \<open>
  The two-channel input of CopyTask after the transpose and the reshape: the
  \<open>(length b + n) \<times> 2\<close> matrix whose first column is \<open>b\<close> followed by \<open>n\<close> zeros
  and whose second column is \<open>length b\<close> zeros followed by \<open>n\<close> ones, transposed and
  flattened to one column.
\<close>

definition interleaved :: "int list \<Rightarrow> nat \<Rightarrow> mat" where
  "interleaved b n =
     \<lparr>n_rows = 2 * (length b + n), n_cols = 1,
      mem = map (\<lambda>k. ((b @ replicate n 0) @ (replicate (length b) 0 @ replicate n 1))
                       ! ((k mod 2) * (length b + n) + k div 2))
              [0..<(length b + n) * 2]\<rparr>"

section \<open>Concrete random outcomes\<close>

text \<open>Outcomes of the random source at which the theorems below are instantiated.\<close>

definition sample_draws :: "nat \<Rightarrow> draws" where
  "sample_draws i = \<lparr>drawA = i, drawB = i + 1, drawBits = (\<lambda>k. i + k * k)\<rparr>"

definition zero_draws :: "nat \<Rightarrow> draws" where
  "zero_draws i = \<lparr>drawA = 0, drawB = 0, drawBits = (\<lambda>k. 0)\<rparr>"

definition overflow_draws :: "nat \<Rightarrow> draws" where
  "overflow_draws i =
     \<lparr>drawA = 0, drawB = 0, drawBits = (\<lambda>k. if k = 0 \<or> k = 31 \<or> 34 \<le> k then 1 else 0)\<rparr>"

text \<open>
  The input sequence these outcomes give for \<open>bitLen = 32\<close>: operand A is
  \<open>2 ^ 31 + 1\<close> and operand B is \<open>2 ^ 31 - 1\<close>.
\<close>

definition overflow_input :: "int list" where
  "overflow_input = [1] @ replicate 30 0 @ [1] @ [2] @ [0] @ replicate 31 1"

text \<open>
  Outcomes for \<open>bitLen = 32\<close> whose operand A is \<open>2 ^ 31\<close> and whose operand B is
  0, and the input sequence they give.
\<close>

definition negative_draws :: "nat \<Rightarrow> draws" where
  "negative_draws i = \<lparr>drawA = 0, drawB = 0, drawBits = (\<lambda>k. if k = 0 then 1 else 0)\<rparr>"

definition negative_input :: "int list" where
  "negative_input = [1] @ replicate 31 0 @ [2] @ replicate 32 0"

text \<open>
  Outcomes for CopyTask: item \<open>i\<close> draws the raw length \<open>i + 1\<close> and the bits
  1, 0, 1 followed by zeros.
\<close>

definition copy_sample :: "nat \<Rightarrow> copy_draws" where
  "copy_sample i = \<lparr>drawSize = i + 1, drawSeq = (\<lambda>k. if k \<in> {0, 2} then 1 else 0)\<rparr>"

section \<open>Sequencing and the one-hot loop\<close>

lemma mapM_length: "mapM f xs = Inr ys \<Longrightarrow> length ys = length xs"
  by (induction xs arbitrary: ys) (auto split: sum.splits)

lemma mapM_nth: "mapM f xs = Inr ys \<Longrightarrow> i < length xs \<Longrightarrow> f (xs ! i) = Inr (ys ! i)"
proof (induction xs arbitrary: ys i)
  case Nil
  then show ?case by simp
next
  case (Cons x xs)
  then show ?case by (cases i) (auto split: sum.splits)
qed

lemma mapM_total: "(\<And>x. x \<in> set xs \<Longrightarrow> \<exists>y. f x = Inr y) \<Longrightarrow> \<exists>ys. mapM f xs = Inr ys"
proof (induction xs)
  case Nil
  then show ?case by simp
next
  case (Cons x xs)
  then obtain y where "f x = Inr y" by force
  moreover from Cons obtain ys where "mapM f xs = Inr ys" by force
  ultimately show ?case by simp
qed

lemma mapM_map: "(\<And>x. x \<in> set xs \<Longrightarrow> f x = Inr (g x)) \<Longrightarrow> mapM f xs = Inr (map g xs)"
  by (induction xs) auto

lemma length_onehot: "length (onehot x) = 3"
  by (simp add: onehot_def)

lemma length_concat_onehot: "length (concat (map onehot v)) = 3 * length v"
  by (induction v) (auto simp: onehot_def)

lemma update_zeros_onehot:
  "x \<in> {0, 1, 2} \<Longrightarrow> (replicate (3 + n) (0::int))[nat x := 1] = onehot x @ replicate n 0"
  by (auto simp: onehot_def numeral_3_eq_3)

lemma Binarize_loop_eq:
  "\<forall>x \<in> set xs. x \<in> {0, 1, 2} \<Longrightarrow> length pre = 3 * j \<Longrightarrow> j + length xs \<le> n \<Longrightarrow>
   Binarize_loop xs j \<lparr>n_rows = 3, n_cols = n, mem = pre @ replicate (3 * length xs) 0 @ post\<rparr>
     = Inr \<lparr>n_rows = 3, n_cols = n, mem = pre @ concat (map onehot xs) @ post\<rparr>"
proof (induction xs arbitrary: j pre)
  case Nil
  then show ?case by simp
next
  case (Cons x xs)
  have x: "x \<in> {0, 1, 2}" using Cons.prems(1) by simp
  then have nx: "nat x < 3" "\<not> x < 0" by auto
  have upd: "(pre @ replicate (3 * length (x # xs)) 0 @ post)[j * 3 + nat x := 1]
      = (pre @ onehot x) @ replicate (3 * length xs) 0 @ post"
  proof -
    have "(pre @ replicate (3 * length (x # xs)) 0 @ post)[j * 3 + nat x := 1]
        = pre @ (replicate (3 + 3 * length xs) 0 @ post)[nat x := 1]"
      using Cons.prems(2) by (simp add: list_update_append mult.commute)
    also have "(replicate (3 + 3 * length xs) (0::int) @ post)[nat x := 1]
        = (replicate (3 + 3 * length xs) 0)[nat x := 1] @ post"
      using nx by (simp add: list_update_append)
    finally show ?thesis using update_zeros_onehot [OF x] by simp
  qed
  have len: "length (pre @ onehot x) = 3 * Suc j"
    using Cons.prems(2) by (simp add: onehot_def)
  have "Binarize_loop (x # xs) j \<lparr>n_rows = 3, n_cols = n, mem = pre @ replicate (3 * length (x # xs)) 0 @ post\<rparr>
      = Binarize_loop xs (Suc j) \<lparr>n_rows = 3, n_cols = n, mem = (pre @ onehot x) @ replicate (3 * length xs) 0 @ post\<rparr>"
    using nx Cons.prems(3) upd by (simp add: at_put_def)
  also have "\<dots> = Inr \<lparr>n_rows = 3, n_cols = n, mem = (pre @ onehot x) @ concat (map onehot xs) @ post\<rparr>"
    using Cons.prems by (intro Cons.IH [OF _ len]) auto
  finally show ?case by simp
qed

lemma Binarize_item_eq:
  assumes "\<forall>x \<in> set v. x \<in> {0, 1, 2}"
  shows "Binarize_item v = Inr \<lparr>n_rows = 3 * length v, n_cols = 1, mem = concat (map onehot v)\<rparr>"
proof -
  have "Binarize_loop v 0 (zeros 3 (length v))
      = Inr \<lparr>n_rows = 3, n_cols = length v, mem = concat (map onehot v)\<rparr>"
    using Binarize_loop_eq [OF assms, of "[]" 0 "length v" "[]"] by (simp add: zeros_def)
  then show ?thesis
    by (simp add: Binarize_item_def reshape_def n_elem_def length_concat_onehot)
qed

lemma nth_concat_onehot:
  "j < length v \<Longrightarrow> k < 3 \<Longrightarrow> concat (map onehot v) ! (3 * j + k) = onehot (v ! j) ! k"
proof (induction v arbitrary: j)
  case Nil
  then show ?case by simp
next
  case (Cons x v)
  show ?case
  proof (cases j)
    case 0
    then show ?thesis using Cons.prems by (simp add: nth_append length_onehot)
  next
    case (Suc j')
    then have "concat (map onehot (x # v)) ! (3 * j + k) = concat (map onehot v) ! (3 * j' + k)"
      by (simp add: nth_append length_onehot)
    then show ?thesis using Cons Suc by simp
  qed
qed

lemma onehot_nth: "x \<in> {0, 1, 2} \<Longrightarrow> k < 3 \<Longrightarrow> onehot x ! k = (if int k = x then 1 else 0)"
  by (auto simp: onehot_def nth_Cons split: nat.splits)

section \<open>Binary numbers and the word loops\<close>

lemma decode_be_Nil: "decode_be [] = 0"
  by (simp add: decode_be_def)

lemma decode_be_snoc: "decode_be (bits @ [b]) = 2 * decode_be bits + b"
  by (simp add: decode_be_def)

lemma decode_be_bounds:
  "set bits \<subseteq> {0, 1} \<Longrightarrow> 0 \<le> decode_be bits \<and> decode_be bits < 2 ^ length bits"
proof (induction bits rule: rev_induct)
  case Nil
  then show ?case by (simp add: decode_be_Nil)
next
  case (snoc b bits)
  then have "b = 0 \<or> b = 1" and "0 \<le> decode_be bits" and "decode_be bits < 2 ^ length bits"
    by auto
  then show ?case by (auto simp: decode_be_snoc)
qed

lemma decode_be_zeros: "set bits \<subseteq> {0} \<Longrightarrow> decode_be bits = 0"
  by (induction bits rule: rev_induct) (auto simp: decode_be_Nil decode_be_snoc)

lemma foldl_word_of_int:
  "foldl (\<lambda>val k. push_bit 1 val + word_of_int (v ! k)) (word_of_int a :: 32 word) ks
     = word_of_int (foldl (\<lambda>acc b. 2 * acc + b) a (map ((!) v) ks))"
proof (induction ks arbitrary: a)
  case Nil
  then show ?case by simp
next
  case (Cons k ks)
  have "push_bit 1 (word_of_int a :: 32 word) + word_of_int (v ! k) = word_of_int (2 * a + v ! k)"
    by (simp add: push_bit_eq_mult)
  then show ?case using Cons.IH [of "2 * a + v ! k"] by (simp only: foldl_Cons list.map)
qed

lemma bits_value_eq:
  "bits_value v lo hi = word_of_int (decode_be (map ((!) v) [lo..<hi]))"
  using foldl_word_of_int [of v 0 "[lo..<hi]"] by (simp add: bits_value_def decode_be_def)

lemma map_nth_slice: "hi \<le> length v \<Longrightarrow> map ((!) v) [lo..<hi] = take (hi - lo) (drop lo v)"
  by (rule nth_equalityI) auto

lemma sint_shift_less: "0 < sint (tot :: 32 word) \<Longrightarrow> nat (sint (signed_drop_bit 1 tot)) < nat (sint tot)"
  by (simp add: sint_signed_drop_bit_eq drop_bit_eq_div)

lemma binary_loop_acc: "binary_loop tot acc = acc @ binary_loop tot []"
proof (induction "nat (sint tot)" arbitrary: tot acc rule: less_induct)
  case less
  show ?case
  proof (cases "0 < sint tot")
    case True
    note IH = less [OF sint_shift_less [OF True]]
    have "binary_loop tot acc = binary_loop (signed_drop_bit 1 tot) (acc @ [tot AND 1])"
      using True by (subst binary_loop.simps) simp
    also have "\<dots> = (acc @ [tot AND 1]) @ binary_loop (signed_drop_bit 1 tot) []"
      by (rule IH)
    also have "\<dots> = acc @ binary_loop (signed_drop_bit 1 tot) [tot AND 1]"
      using IH [of "[tot AND 1]"] by simp
    also have "binary_loop (signed_drop_bit 1 tot) [tot AND 1] = binary_loop tot []"
      using True by (subst (2) binary_loop.simps) simp
    finally show ?thesis .
  next
    case False
    then show ?thesis by (subst (1 2) binary_loop.simps) simp
  qed
qed

lemma binary_loop_pos:
  "0 < sint tot \<Longrightarrow> binary_loop tot [] = (tot AND 1) # binary_loop (signed_drop_bit 1 tot) []"
  using binary_loop_acc [of "signed_drop_bit 1 tot" "[tot AND 1]"]
  by (subst binary_loop.simps) simp

lemma binary_loop_nonpos: "\<not> 0 < sint tot \<Longrightarrow> binary_loop tot [] = []"
  by (subst binary_loop.simps) simp

lemma sint_and_1: "sint ((tot :: 32 word) AND 1) = sint tot mod 2"
proof -
  have "sint (tot AND 1) = sint tot AND sint (1 :: 32 word)"
    by (rule signed_and_eq)
  also have "\<dots> = sint tot AND 1" by simp
  also have "\<dots> = sint tot mod 2" by (rule and_one_eq)
  finally show ?thesis .
qed

lemma reversed_eq: "reversed xs = map sint (rev xs)"
  by (rule nth_equalityI) (auto simp: reversed_def rev_nth)

lemma digits_decode:
  "0 \<le> sint tot \<Longrightarrow> decode_be (map sint (rev (binary_loop tot []))) = sint tot"
proof (induction "nat (sint tot)" arbitrary: tot rule: less_induct)
  case less
  show ?case
  proof (cases "0 < sint tot")
    case True
    have nn: "0 \<le> sint (signed_drop_bit 1 tot)"
      using True by (simp add: sint_signed_drop_bit_eq drop_bit_eq_div)
    have "decode_be (map sint (rev (binary_loop tot [])))
        = 2 * decode_be (map sint (rev (binary_loop (signed_drop_bit 1 tot) []))) + sint (tot AND 1)"
      by (simp add: binary_loop_pos [OF True] decode_be_snoc)
    also have "\<dots> = 2 * sint (signed_drop_bit 1 tot) + sint tot mod 2"
      using less(1) [OF sint_shift_less [OF True] nn] by (simp add: sint_and_1)
    also have "\<dots> = sint tot"
      by (simp add: sint_signed_drop_bit_eq drop_bit_eq_div)
    finally show ?thesis .
  next
    case False
    then show ?thesis using less.prems by (simp add: binary_loop_nonpos decode_be_Nil)
  qed
qed

lemma digits_bits: "set (map sint (binary_loop tot [])) \<subseteq> {0, 1}"
proof (induction "nat (sint tot)" arbitrary: tot rule: less_induct)
  case less
  show ?case
  proof (cases "0 < sint tot")
    case True
    have "sint (tot AND 1) \<in> {0, 1}" by (auto simp: sint_and_1)
    then show ?thesis
      using less [OF sint_shift_less [OF True]] by (simp add: binary_loop_pos [OF True])
  next
    case False
    then show ?thesis by (simp add: binary_loop_nonpos)
  qed
qed

lemma digits_last:
  "0 < sint tot \<Longrightarrow> sint (last (binary_loop tot [])) = 1"
proof (induction "nat (sint tot)" arbitrary: tot rule: less_induct)
  case less
  note pos = less.prems
  show ?case
  proof (cases "0 < sint (signed_drop_bit 1 tot)")
    case True
    then have "binary_loop (signed_drop_bit 1 tot) [] \<noteq> []"
      by (simp add: binary_loop_pos)
    then show ?thesis
      using less(1) [OF sint_shift_less [OF pos] True] by (simp add: binary_loop_pos [OF pos])
  next
    case False
    then have "sint tot div 2 \<le> 0" by (simp add: sint_signed_drop_bit_eq drop_bit_eq_div)
    with pos have "sint tot = 1" by linarith
    then have "sint (tot AND 1) = 1" by (simp add: sint_and_1)
    then show ?thesis
      using False by (simp add: binary_loop_pos [OF pos] binary_loop_nonpos)
  qed
qed

lemma digits_length:
  "0 < sint tot \<Longrightarrow> 2 ^ (length (binary_loop tot []) - 1) \<le> sint tot"
proof (induction "nat (sint tot)" arbitrary: tot rule: less_induct)
  case less
  note pos = less.prems
  show ?case
  proof (cases "0 < sint (signed_drop_bit 1 tot)")
    case True
    then have ne: "binary_loop (signed_drop_bit 1 tot) [] \<noteq> []"
      by (simp add: binary_loop_pos)
    have "(2::int) ^ (length (binary_loop (signed_drop_bit 1 tot) []) - 1) \<le> sint tot div 2"
      using less(1) [OF sint_shift_less [OF pos] True]
      by (simp add: sint_signed_drop_bit_eq drop_bit_eq_div)
    then have "2 * (2::int) ^ (length (binary_loop (signed_drop_bit 1 tot) []) - 1) \<le> sint tot"
      by linarith
    moreover have "length (binary_loop tot []) - 1
        = Suc (length (binary_loop (signed_drop_bit 1 tot) []) - 1)"
      using ne by (cases "binary_loop (signed_drop_bit 1 tot) []") (simp_all add: binary_loop_pos [OF pos])
    ultimately show ?thesis by simp
  next
    case False
    then show ?thesis using pos by (simp add: binary_loop_pos [OF pos] binary_loop_nonpos)
  qed
qed

section \<open>Decoding, labels and input sequences\<close>

lemma unbinarize_zeros: "unbinarize (replicate n 0) = []"
proof (cases n)
  case 0
  then show ?thesis by simp
next
  case (Suc n1)
  show ?thesis
  proof (cases n1)
    case 0
    then show ?thesis using Suc by simp
  next
    case (Suc n2)
    then show ?thesis using \<open>n = Suc n1\<close> by (cases n2) simp_all
  qed
qed

lemma unbinarize_onehot:
  "x \<in> {0, 1, 2} \<Longrightarrow> unbinarize (onehot x @ rest) = x # unbinarize rest"
  by (auto simp: onehot_def)

lemma unbinarize_encoding:
  "set syms \<subseteq> {0, 1, 2} \<Longrightarrow> unbinarize (concat (map onehot syms) @ replicate n 0) = syms"
  by (induction syms) (simp_all add: unbinarize_zeros unbinarize_onehot del: unbinarize.simps)

lemma make_label_eq:
  "make_label a b =
     (if 0 < sint (a + b) then Inr (map sint (rev (binary_loop (a + b) [])))
      else if a + b \<noteq> 0 then Inl DomainError else Inr [0])"
proof (cases "0 < sint (a + b)")
  case True
  then show ?thesis
    by (simp add: make_label_def Let_def binary_loop_pos reversed_eq)
next
  case False
  then show ?thesis
    by (simp add: make_label_def Let_def binary_loop_nonpos reversed_eq)
qed

lemma make_label_props:
  assumes "make_label a b = Inr l"
  shows "0 \<le> sint (a + b) \<and> decode_be l = sint (a + b) \<and> l \<noteq> [] \<and> set l \<subseteq> {0, 1}
    \<and> (sint (a + b) = 0 \<longrightarrow> l = [0]) \<and> (l \<noteq> [0] \<longrightarrow> hd l = 1)
    \<and> 2 ^ (length l - 1) \<le> max 1 (sint (a + b))"
proof (cases "0 < sint (a + b)")
  case True
  then have l: "l = map sint (rev (binary_loop (a + b) []))"
    using assms by (simp add: make_label_eq)
  have ne: "binary_loop (a + b) [] \<noteq> []" using True by (simp add: binary_loop_pos)
  have "decode_be l = sint (a + b)" using True by (simp add: l digits_decode)
  moreover have "l \<noteq> []" using ne by (simp add: l)
  moreover have "set l \<subseteq> {0, 1}" using digits_bits [of "a + b"] by (simp add: l)
  moreover have "hd l = sint (last (binary_loop (a + b) []))"
    using ne by (simp add: l hd_map hd_rev)
  then have "hd l = 1" using digits_last [OF True] by simp
  moreover have "2 ^ (length l - 1) \<le> max 1 (sint (a + b))"
    using digits_length [OF True] by (simp add: l)
  ultimately show ?thesis using True by simp
next
  case False
  then have l: "l = [0]" and z: "a + b = 0"
    using assms by (auto simp: make_label_eq split: if_splits)
  show ?thesis by (simp add: z l decode_be_def)
qed

lemma length_randi: "length (randi n a b raw) = n"
  by (simp add: randi_def)

lemma randi_bits_eq: "randi n 0 1 raw = map (\<lambda>k. int (raw k mod 2)) [0..<n]"
  by (simp add: randi_def numeral_2_eq_2)

lemma set_randi_bits: "set (randi n 0 1 raw) \<subseteq> {0, 1}"
proof -
  have "\<And>k. raw k mod 2 = 0 \<or> raw k mod 2 = 1" by presburger
  then show ?thesis unfolding randi_bits_eq by force
qed

lemma randi_bit:
  assumes "k < n"
  shows "randi n 0 1 raw ! k \<in> {0, 1}"
proof -
  have "randi n 0 1 raw ! k \<in> set (randi n 0 1 raw)"
    by (rule nth_mem) (simp only: length_randi assms)
  then show ?thesis using set_randi_bits [of n raw] by blast
qed

lemma length_make_input: "length (make_input sizeA sizeB raw) = sizeA + sizeB + 1"
  by (simp add: make_input_def length_randi)

lemma make_input_sep: "make_input sizeA sizeB raw ! sizeA = 2"
  by (simp add: make_input_def length_randi)

lemma make_input_bit:
  "k < sizeA + sizeB + 1 \<Longrightarrow> k \<noteq> sizeA \<Longrightarrow> make_input sizeA sizeB raw ! k \<in> {0, 1}"
  using randi_bit [of k "sizeA + sizeB + 1" raw] by (simp add: make_input_def)

lemma set_make_input: "set (make_input sizeA sizeB raw) \<subseteq> {0, 1, 2}"
proof
  fix x assume "x \<in> set (make_input sizeA sizeB raw)"
  then obtain k where k: "k < sizeA + sizeB + 1" and x: "x = make_input sizeA sizeB raw ! k"
    by (auto simp: in_set_conv_nth length_make_input)
  show "x \<in> {0, 1, 2}"
    using make_input_sep [of sizeA sizeB raw] make_input_bit [OF k, of raw] x
    by (cases "k = sizeA") auto
qed

lemma make_input_split:
  "make_input sizeA sizeB raw
     = take sizeA (make_input sizeA sizeB raw) @ 2 # drop (sizeA + 1) (make_input sizeA sizeB raw)"
  using id_take_nth_drop [of sizeA "make_input sizeA sizeB raw"]
  by (simp add: length_make_input make_input_sep)

lemma set_take_make_input: "set (take sizeA (make_input sizeA sizeB raw)) \<subseteq> {0, 1}"
proof
  fix x assume "x \<in> set (take sizeA (make_input sizeA sizeB raw))"
  then obtain k where "k < sizeA" and "x = make_input sizeA sizeB raw ! k"
    by (auto simp: in_set_conv_nth length_make_input)
  then show "x \<in> {0, 1}" using make_input_bit [of k sizeA sizeB raw] by simp
qed

lemma set_drop_make_input: "set (drop (sizeA + 1) (make_input sizeA sizeB raw)) \<subseteq> {0, 1}"
proof
  fix x assume "x \<in> set (drop (sizeA + 1) (make_input sizeA sizeB raw))"
  then obtain k where "k < sizeB" and "x = make_input sizeA sizeB raw ! (sizeA + 1 + k)"
    by (auto simp: in_set_conv_nth length_make_input)
  then show "x \<in> {0, 1}" using make_input_bit [of "sizeA + 1 + k" sizeA sizeB raw] by simp
qed

lemma operandA_make_input:
  "operandA (make_input sizeA sizeB raw) = take sizeA (make_input sizeA sizeB raw)"
proof -
  have "\<forall>x \<in> set (take sizeA (make_input sizeA sizeB raw)). x \<noteq> 2"
    using set_take_make_input [of sizeA sizeB raw] by auto
  then have "takeWhile (\<lambda>s. s \<noteq> 2)
      (take sizeA (make_input sizeA sizeB raw) @ 2 # drop (sizeA + 1) (make_input sizeA sizeB raw))
    = take sizeA (make_input sizeA sizeB raw)"
    by (simp add: takeWhile_append2 del: take_all_iff)
  then show ?thesis using make_input_split [of sizeA sizeB raw] by (simp add: operandA_def)
qed

lemma operandB_make_input:
  "operandB (make_input sizeA sizeB raw) = drop (sizeA + 1) (make_input sizeA sizeB raw)"
proof -
  have "\<forall>x \<in> set (take sizeA (make_input sizeA sizeB raw)). x \<noteq> 2"
    using set_take_make_input [of sizeA sizeB raw] by auto
  then have "dropWhile (\<lambda>s. s \<noteq> 2)
      (take sizeA (make_input sizeA sizeB raw) @ 2 # drop (sizeA + 1) (make_input sizeA sizeB raw))
    = 2 # drop (sizeA + 1) (make_input sizeA sizeB raw)"
    by (simp add: dropWhile_append2 del: take_all_iff)
  then show ?thesis using make_input_split [of sizeA sizeB raw] by (simp add: operandB_def)
qed

section \<open>One batch item\<close>

lemma size_t_plus_mod: "size_t_plus a b = (a + b) mod 2 ^ 64"
  by (simp add: size_t_plus_def unat_word_ariths unat_of_nat flip: of_nat_add)

lemma size_t_plus_le: "size_t_plus a b \<le> a + b"
  by (simp add: size_t_plus_mod)

lemma size_t_plus_eq: "a + b < 2 ^ 64 \<Longrightarrow> size_t_plus a b = a + b"
  by (simp add: size_t_plus_mod)

lemma RandInt_Inr:
  assumes "RandInt lo hi raw = Inr x"
  shows "lo \<le> x" and "x < hi"
proof -
  have h: "lo < hi" and x: "x = lo + raw mod (hi - lo)"
    using assms by (auto simp: RandInt_def split: if_splits)
  show "lo \<le> x" by (simp add: x)
  have "raw mod (hi - lo) < hi - lo" using h by simp
  then show "x < hi" using h x by linarith
qed


lemma choose_sizes_Inr:
  assumes "choose_sizes bl fl d = Inr (a, b)"
  shows "(fl \<longrightarrow> a = bl \<and> b = bl)
    \<and> (\<not> fl \<longrightarrow> RandInt 2 (size_t_plus bl 1) (drawA d) = Inr a
              \<and> RandInt 2 (size_t_plus bl 1) (drawB d) = Inr b
              \<and> 2 \<le> a \<and> a \<le> bl \<and> 2 \<le> b \<and> b \<le> bl)"
proof (cases fl)
  case True
  then show ?thesis using assms by (simp add: choose_sizes_def)
next
  case False
  then have a: "RandInt 2 (size_t_plus bl 1) (drawA d) = Inr a"
    and b: "RandInt 2 (size_t_plus bl 1) (drawB d) = Inr b"
    using assms by (auto simp: choose_sizes_def split: sum.splits)
  have "a < size_t_plus bl 1" and "b < size_t_plus bl 1"
    using RandInt_Inr(2) [OF a] RandInt_Inr(2) [OF b] by simp_all
  then have "a \<le> bl" and "b \<le> bl"
    using size_t_plus_le [of bl 1] by simp_all
  then show ?thesis using False a b RandInt_Inr(1) [OF a] RandInt_Inr(1) [OF b] by simp
qed

lemma choose_sizes_returns:
  "fl \<or> 2 < size_t_plus bl 1 \<Longrightarrow> \<exists>a b. choose_sizes bl fl d = Inr (a, b)"
  by (auto simp: choose_sizes_def RandInt_def)

lemma bits_value_A:
  "bits_value (make_input a b raw) 0 a = word_of_int (decode_be (operandA (make_input a b raw)))"
  by (simp add: bits_value_eq map_nth_slice length_make_input operandA_make_input)

lemma bits_value_B:
  "bits_value (make_input a b raw) (a + 1) (a + 1 + b)
     = word_of_int (decode_be (operandB (make_input a b raw)))"
proof -
  have "map ((!) (make_input a b raw)) [a + 1..<a + 1 + b]
      = take (a + 1 + b - (a + 1)) (drop (a + 1) (make_input a b raw))"
    by (rule map_nth_slice) (simp add: length_make_input)
  also have "\<dots> = drop (a + 1) (make_input a b raw)"
    by (simp add: length_make_input)
  finally show ?thesis
    by (simp only: bits_value_eq operandB_make_input)
qed

lemma Generate_item_eq:
  "Generate_item bl fl d =
     (case choose_sizes bl fl d of
        Inl e \<Rightarrow> Inl e
      | Inr (a, b) \<Rightarrow>
          (case make_label (word_of_int (decode_be (operandA (make_input a b (drawBits d)))))
                  (word_of_int (decode_be (operandB (make_input a b (drawBits d))))) of
             Inl e \<Rightarrow> Inl e
           | Inr l \<Rightarrow> Inr (make_input a b (drawBits d), l)))"
proof (cases "choose_sizes bl fl d")
  case (Inl e)
  then show ?thesis by (simp add: Generate_item_def)
next
  case (Inr p)
  obtain a b where p: "p = (a, b)" by (cases p)
  show ?thesis
    unfolding Generate_item_def Inr p Let_def bits_value_A bits_value_B by simp
qed

lemma Generate_item_Inr:
  assumes "Generate_item bl fl d = Inr (v, l)"
  shows "\<exists>a b. choose_sizes bl fl d = Inr (a, b) \<and> v = make_input a b (drawBits d)
    \<and> make_label (word_of_int (decode_be (operandA v))) (word_of_int (decode_be (operandB v))) = Inr l"
  using assms by (auto simp: Generate_item_eq split: sum.splits prod.splits)

lemma length_operandA: "length (operandA (make_input a b raw)) = a"
  by (simp add: operandA_make_input length_make_input)

lemma length_operandB: "length (operandB (make_input a b raw)) = b"
  by (simp add: operandB_make_input length_make_input)

lemma set_operandA: "set (operandA (make_input a b raw)) \<subseteq> {0, 1}"
  by (simp only: operandA_make_input set_take_make_input)

lemma set_operandB: "set (operandB (make_input a b raw)) \<subseteq> {0, 1}"
  by (simp only: operandB_make_input set_drop_make_input)

lemma sint_of_sum:
  assumes "0 \<le> x" and "x < 2 ^ 32" and "0 \<le> sint (word_of_int x :: 32 word)"
  shows "sint (word_of_int x :: 32 word) = x"
proof (cases "x < 2 ^ 31")
  case True
  then show ?thesis using assms(1) by (simp add: sint_sbintrunc' signed_take_bit_int_eq_self)
next
  case False
  have e: "(2::int) ^ Suc 31 = 2 ^ 32" by simp
  have s: "sint (word_of_int x :: 32 word) = signed_take_bit 31 x"
    by (simp add: sint_sbintrunc')
  have "signed_take_bit 31 x \<le> x - 2 ^ Suc 31"
    using False by (intro signed_take_bit_int_less_eq) simp
  then have "signed_take_bit 31 x < 0"
    using assms(2) unfolding e by linarith
  then show ?thesis using assms(3) unfolding s by linarith
qed

lemma sint_of_small:
  assumes "0 \<le> x" and "x < 2 ^ 31"
  shows "sint (word_of_int x :: 32 word) = x"
  using assms by (simp add: sint_sbintrunc' signed_take_bit_int_eq_self)

lemma sint_of_le:
  assumes "0 \<le> x"
  shows "sint (word_of_int x :: 32 word) \<le> x"
  using assms by (simp add: sint_sbintrunc' signed_take_bit_int_less_eq_self_iff)

section \<open>The whole batch\<close>

lemma Generate_vecs_nth:
  assumes "Generate_vecs t batchSize fl rnd = Inr items"
  shows "length items = batchSize"
    and "i < batchSize \<Longrightarrow> Generate_item (bitLen t) fl (rnd i) = Inr (items ! i)"
proof -
  show "length items = batchSize"
    using mapM_length [OF assms [unfolded Generate_vecs_def]] by simp
  show "Generate_item (bitLen t) fl (rnd i) = Inr (items ! i)" if "i < batchSize"
    using mapM_nth [OF assms [unfolded Generate_vecs_def], of i] that by simp
qed

lemma Generate_item_symbols:
  assumes "Generate_item bl fl d = Inr (v, l)"
  shows "set v \<subseteq> {0, 1, 2}" and "set l \<subseteq> {0, 1}"
proof -
  from Generate_item_Inr [OF assms] obtain a b where
    v: "v = make_input a b (drawBits d)" and
    l: "make_label (word_of_int (decode_be (operandA v))) (word_of_int (decode_be (operandB v))) = Inr l"
    by blast
  show "set v \<subseteq> {0, 1, 2}" unfolding v by (rule set_make_input)
  show "set l \<subseteq> {0, 1}" using make_label_props [OF l] by blast
qed

lemma Binarize_encoded:
  assumes "\<And>v. v \<in> set vs \<Longrightarrow> set v \<subseteq> {0, 1, 2}"
  shows "Binarize vs = Inr (map encoded vs)"
  unfolding Binarize_def
proof (rule mapM_map)
  fix v assume "v \<in> set vs"
  then have "\<forall>x \<in> set v. x \<in> {0, 1, 2}" using assms by blast
  then show "Binarize_item v = Inr (encoded v)"
    by (simp only: Binarize_item_eq encoded_def)
qed

lemma Generate_eq:
  assumes "Generate_vecs t batchSize fl rnd = Inr items"
  shows "Generate t batchSize fl rnd = Inr (map (\<lambda>p. encoded (fst p)) items, map padded items)"
proof -
  have sym: "set (fst p) \<subseteq> {0, 1, 2} \<and> set (snd p) \<subseteq> {0, 1, 2}" if "p \<in> set items" for p
  proof -
    from that obtain i where i: "i < length items" and p: "p = items ! i"
      by (auto simp: in_set_conv_nth)
    have "Generate_item (bitLen t) fl (rnd i) = Inr (fst p, snd p)"
      using Generate_vecs_nth [OF assms] i p by simp
    from Generate_item_symbols [OF this] show ?thesis by auto
  qed
  have bi: "Binarize (map fst items) = Inr (map encoded (map fst items))"
    by (rule Binarize_encoded) (use sym in auto)
  have bl: "Binarize (map snd items) = Inr (map encoded (map snd items))"
    by (rule Binarize_encoded) (use sym in auto)
  have re: "map (\<lambda>i. reshape (n_elem (map encoded (map fst items) ! i)) 1
                (map encoded (map snd items) ! i)) [0..<length (map encoded (map fst items))]
      = map padded items"
    by (rule nth_equalityI) (simp_all add: padded_def)
  show ?thesis
    unfolding Generate_def assms bi bl sum.case re by (simp add: comp_def)
qed

lemma Generate_Inl:
  "Generate_vecs t batchSize fl rnd = Inl e \<Longrightarrow> Generate t batchSize fl rnd = Inl e"
  by (simp add: Generate_def)

lemma Generate_Inr:
  assumes "Generate t batchSize fl rnd = Inr (input, labels)"
  shows "\<exists>items. Generate_vecs t batchSize fl rnd = Inr items
    \<and> input = map (\<lambda>p. encoded (fst p)) items \<and> labels = map padded items"
proof (cases "Generate_vecs t batchSize fl rnd")
  case (Inl e)
  then show ?thesis using assms by (simp add: Generate_Inl)
next
  case (Inr items)
  then show ?thesis using assms by (simp add: Generate_eq)
qed

lemma pow_sum_less:
  assumes "0 \<le> A" "A < 2 ^ a" "0 \<le> B" "B < 2 ^ b"
  shows "A + B < (2::int) ^ (a + b)"
proof -
  have "(2::int) ^ a - 1 \<ge> A" "(2::int) ^ b - 1 \<ge> B" using assms by simp_all
  moreover have "0 \<le> ((2::int) ^ a - 1) * (2 ^ b - 1)"
    by (intro mult_nonneg_nonneg) simp_all
  then have "(2::int) ^ a + 2 ^ b - 1 \<le> 2 ^ (a + b)"
    by (simp add: algebra_simps power_add)
  ultimately show ?thesis by linarith
qed

lemma Generate_item_sum:
  assumes "Generate_item bl fl d = Inr (v, l)"
  shows "decode_be l = sint (word_of_int (decode_be (operandA v) + decode_be (operandB v)) :: 32 word)"
    and "l \<noteq> []" and "l \<noteq> [0] \<Longrightarrow> hd l = 1" and "length l \<le> length v"
    and "1 \<le> bl \<Longrightarrow> length l < length v"
    and "bl \<le> 31 \<Longrightarrow> decode_be l = decode_be (operandA v) + decode_be (operandB v)"
    and "set v \<subseteq> {0, 2} \<Longrightarrow> l = [0]"
proof -
  from Generate_item_Inr [OF assms] obtain a b where
    ab: "choose_sizes bl fl d = Inr (a, b)" and
    v: "v = make_input a b (drawBits d)" and
    l: "make_label (word_of_int (decode_be (operandA v))) (word_of_int (decode_be (operandB v))) = Inr l"
    by blast
  define A where "A = decode_be (operandA v)"
  define B where "B = decode_be (operandB v)"
  have tot: "(word_of_int A :: 32 word) + word_of_int B = word_of_int (A + B)" by simp
  note props = make_label_props [OF l, folded A_def B_def, unfolded tot]
  have A: "0 \<le> A" "A < 2 ^ a"
    using decode_be_bounds [OF set_operandA [of a b "drawBits d"]]
    by (simp_all add: A_def v length_operandA)
  have B: "0 \<le> B" "B < 2 ^ b"
    using decode_be_bounds [OF set_operandB [of a b "drawBits d"]]
    by (simp_all add: B_def v length_operandB)
  have lt: "A + B < 2 ^ (a + b)" by (rule pow_sum_less [OF A B])
  have len: "length v = a + b + 1" by (simp add: v length_make_input)
  show "decode_be l = sint (word_of_int (decode_be (operandA v) + decode_be (operandB v)) :: 32 word)"
    using props by (simp add: A_def B_def)
  show "l \<noteq> []" using props by blast
  show "l \<noteq> [0] \<Longrightarrow> hd l = 1" using props by blast
  have le: "sint (word_of_int (A + B) :: 32 word) \<le> A + B"
    by (rule sint_of_le) (use A B in simp)
  have p2: "(2::int) ^ (length l - 1) \<le> max 1 (A + B)"
    using props le by linarith
  have one: "(1::int) \<le> 2 ^ (a + b)" by simp
  have "(2::int) ^ (length l - 1) \<le> 2 ^ (a + b)" using p2 lt one by linarith
  then have "length l - 1 \<le> a + b" by (simp add: power_increasing_iff)
  then show "length l \<le> length v" using len by linarith
  show "length l < length v" if "1 \<le> bl"
  proof -
    have "1 \<le> a" "1 \<le> b" using choose_sizes_Inr [OF ab] that by (cases fl; simp)+
    then have "(2::int) ^ 1 \<le> 2 ^ (a + b)" by (intro power_increasing) simp_all
    then have "(1::int) < 2 ^ (a + b)" by simp
    then have "(2::int) ^ (length l - 1) < 2 ^ (a + b)" using p2 lt by linarith
    then have "length l - 1 < a + b" by (simp add: power_strict_increasing_iff)
    then show ?thesis using len by linarith
  qed
  show "decode_be l = decode_be (operandA v) + decode_be (operandB v)" if "bl \<le> 31"
  proof -
    have "a \<le> 31" "b \<le> 31" using choose_sizes_Inr [OF ab] that by (cases fl; simp)+
    then have "(2::int) ^ a \<le> 2 ^ 31" and "(2::int) ^ b \<le> 2 ^ 31"
      by (intro power_increasing; simp)+
    then have "A + B < 2 ^ 32" using A B by simp
    moreover have "0 \<le> A + B" using A B by simp
    ultimately have "sint (word_of_int (A + B) :: 32 word) = A + B"
      using props by (intro sint_of_sum) simp_all
    then show ?thesis using props by (simp add: A_def B_def)
  qed
  show "l = [0]" if "set v \<subseteq> {0, 2}"
  proof -
    have "set (operandA v) \<subseteq> {0}"
    proof
      fix x assume x: "x \<in> set (operandA v)"
      then have "x \<in> {0, 1}" using set_operandA [of a b "drawBits d"] by (auto simp: v)
      moreover have "x \<in> set v" using x by (auto simp: operandA_def dest: set_takeWhileD)
      ultimately show "x \<in> {0}" using that by auto
    qed
    then have "A = 0" unfolding A_def by (rule decode_be_zeros)
    have "set (operandB v) \<subseteq> {0}"
    proof
      fix x assume x: "x \<in> set (operandB v)"
      then have "x \<in> {0, 1}" using set_operandB [of a b "drawBits d"] by (auto simp: v)
      moreover have "x \<in> set v"
        using x unfolding v operandB_make_input by (rule in_set_dropD)
      ultimately show "x \<in> {0}" using that by auto
    qed
    then have "B = 0" unfolding B_def by (rule decode_be_zeros)
    show ?thesis using props \<open>A = 0\<close> \<open>B = 0\<close> by simp
  qed
qed

lemma Generate_item_returns:
  assumes "bl \<le> 30" and "fl \<or> 2 \<le> bl"
  shows "\<exists>r. Generate_item bl fl d = Inr r"
proof -
  have "size_t_plus bl 1 = bl + 1" by (rule size_t_plus_eq) (use assms(1) in simp)
  then have "fl \<or> 2 < size_t_plus bl 1" using assms(2) by auto
  from choose_sizes_returns [OF this] obtain a b where
    ab: "choose_sizes bl fl d = Inr (a, b)" by blast
  define v where "v = make_input a b (drawBits d)"
  define A where "A = decode_be (operandA v)"
  define B where "B = decode_be (operandB v)"
  have "a \<le> 30" "b \<le> 30" using choose_sizes_Inr [OF ab] assms(1) by (cases fl; simp)+
  then have "(2::int) ^ a \<le> 2 ^ 30" and "(2::int) ^ b \<le> 2 ^ 30"
    by (intro power_increasing; simp)+
  moreover have "0 \<le> A \<and> A < 2 ^ a"
    using decode_be_bounds [OF set_operandA [of a b "drawBits d"]]
    by (simp add: A_def v_def length_operandA)
  moreover have "0 \<le> B \<and> B < 2 ^ b"
    using decode_be_bounds [OF set_operandB [of a b "drawBits d"]]
    by (simp add: B_def v_def length_operandB)
  ultimately have "0 \<le> A + B" and "A + B < 2 ^ 31" by simp_all
  then have s: "sint (word_of_int (A + B) :: 32 word) = A + B" by (rule sint_of_small)
  have "\<exists>l. make_label (word_of_int A) (word_of_int B) = Inr l"
  proof (cases "0 < A + B")
    case True
    then show ?thesis using s by (simp add: make_label_eq)
  next
    case False
    then have "A = 0" and "B = 0"
      using \<open>0 \<le> A \<and> A < 2 ^ a\<close> \<open>0 \<le> B \<and> B < 2 ^ b\<close> by simp_all
    then show ?thesis by (simp add: make_label_eq)
  qed
  then show ?thesis
    by (auto simp: Generate_item_eq ab A_def B_def v_def)
qed

lemma Generate_returns:
  assumes "bitLen t \<le> 30" and "fl \<or> 2 \<le> bitLen t"
  shows "\<exists>r. Generate t batchSize fl rnd = Inr r"
proof -
  have "\<exists>items. Generate_vecs t batchSize fl rnd = Inr items"
    unfolding Generate_vecs_def
    by (rule mapM_total) (rule Generate_item_returns [OF assms])
  then show ?thesis using Generate_eq by blast
qed

lemma mem_padded:
  assumes "length l \<le> length v"
  shows "padded (v, l) = \<lparr>n_rows = 3 * length v, n_cols = 1,
    mem = concat (map onehot l) @ replicate (3 * (length v - length l)) 0\<rparr>"
  using assms
  by (simp add: padded_def reshape_def encoded_def n_elem_def length_concat_onehot diff_mult_distrib2)

lemma Generate_nth:
  assumes "Generate t batchSize fl rnd = Inr (input, labels)" and "i < batchSize"
  shows "\<exists>v l. Generate_item (bitLen t) fl (rnd i) = Inr (v, l)
    \<and> input ! i = encoded v \<and> labels ! i = padded (v, l)"
proof -
  from Generate_Inr [OF assms(1)] obtain items where
    g: "Generate_vecs t batchSize fl rnd = Inr items" and
    inp: "input = map (\<lambda>p. encoded (fst p)) items" and lab: "labels = map padded items"
    by blast
  have len: "i < length items" using Generate_vecs_nth(1) [OF g] assms(2) by simp
  have "Generate_item (bitLen t) fl (rnd i) = Inr (fst (items ! i), snd (items ! i))"
    using Generate_vecs_nth(2) [OF g assms(2)] by simp
  moreover have "input ! i = encoded (fst (items ! i))" using len by (simp add: inp)
  moreover have "labels ! i = padded (fst (items ! i), snd (items ! i))"
    using len by (simp add: lab)
  ultimately show ?thesis by blast
qed

lemma unbinarize_encoded: "set v \<subseteq> {0, 1, 2} \<Longrightarrow> unbinarize (mem (encoded v)) = v"
  using unbinarize_encoding [of v 0] by (simp add: encoded_def)

lemma unbinarize_padded:
  assumes "set l \<subseteq> {0, 1}" and "length l \<le> length v"
  shows "unbinarize (mem (padded (v, l))) = l"
proof -
  have "set l \<subseteq> {0, 1, 2}" using assms(1) by auto
  then show ?thesis by (simp add: mem_padded [OF assms(2)] unbinarize_encoding)
qed

lemma overflow_make_input: "make_input 32 32 (drawBits (overflow_draws 0)) = overflow_input"
  by code_simp

lemma overflow_operandA: "decode_be (operandA overflow_input) = 2147483649"
  by code_simp

lemma overflow_operandB: "decode_be (operandB overflow_input) = 2147483647"
  by code_simp

lemma overflow_item: "Generate_item 32 True (overflow_draws 0) = Inr (overflow_input, [0])"
  by (simp add: Generate_item_eq choose_sizes_def overflow_make_input overflow_operandA
      overflow_operandB make_label_eq)

lemma overflow_vecs:
  "Generate_vecs \<lparr>bitLen = 32\<rparr> 1 True overflow_draws = Inr [(overflow_input, [0])]"
  by (simp add: Generate_vecs_def overflow_item)

lemma overflow_symbols: "set overflow_input \<subseteq> {0, 1, 2}"
  using set_make_input [of 32 32 "drawBits (overflow_draws 0)"]
  by (simp only: overflow_make_input)

lemma negative_make_input: "make_input 32 32 (drawBits (negative_draws 0)) = negative_input"
  by code_simp

lemma negative_operandA: "decode_be (operandA negative_input) = 2147483648"
  by code_simp

lemma negative_operandB: "decode_be (operandB negative_input) = 0"
  by code_simp

lemma negative_item: "Generate_item 32 True (negative_draws 0) = Inl DomainError"
  by (simp add: Generate_item_eq choose_sizes_def negative_make_input negative_operandA
      negative_operandB make_label_eq)

lemma negative_vecs: "Generate_vecs \<lparr>bitLen = 32\<rparr> 1 True negative_draws = Inl DomainError"
  by (simp add: Generate_vecs_def negative_item)

lemma set_col_eq:
  assumes "i < n_cols m" and "n_rows x = n_rows m" and "n_cols x = 1"
  shows "set_col m i x
    = Inr (m\<lparr>mem := take (i * n_rows m) (mem m) @ mem x @ drop ((i + 1) * n_rows m) (mem m)\<rparr>)"
  using assms by (simp add: set_col_def)

lemma set_col_Inr:
  assumes "set_col m i x = Inr m'"
  shows "i < n_cols m" and "n_rows x = n_rows m" and "n_cols x = 1"
    and "n_rows m' = n_rows m" and "n_cols m' = n_cols m"
    and "mem m' = take (i * n_rows m) (mem m) @ mem x @ drop ((i + 1) * n_rows m) (mem m)"
  using assms by (auto simp: set_col_def split: if_splits)

lemma column_index_less:
  assumes "j < (i::nat)" and "r < R"
  shows "j * R + r < i * R"
proof -
  have "Suc j * R \<le> i * R" using assms(1) by (intro mult_le_mono1) simp
  then show ?thesis using assms(2) by simp
qed

lemma nth_replaced_column:
  assumes "i < C" and "length M = R * C" and "length X = R" and "j < C" and "r < R"
  shows "(take (i * R) M @ X @ drop ((i + 1) * R) M) ! (j * R + r)
    = (if j = i then X ! r else M ! (j * R + r))"
proof -
  have iR: "(i + 1) * R \<le> length M"
    using assms(1,2) by (simp add: mult.commute [of R C]) (metis Suc_leI mult_le_mono1 mult_Suc)
  then have lt: "length (take (i * R) M) = i * R" by simp
  consider "j < i" | "j = i" | "i < j" by linarith
  then show ?thesis
  proof cases
    case 1
    then have "j * R + r < i * R" using assms(5) by (rule column_index_less)
    then show ?thesis using 1 lt by (simp add: nth_append)
  next
    case 2
    then show ?thesis using lt assms(3,5) by (simp add: nth_append)
  next
    case 3
    then have ge: "(i + 1) * R \<le> j * R" by (intro mult_le_mono1) simp
    then have "\<not> j * R + r < i * R" and "\<not> j * R + r - i * R < R" by simp_all
    moreover have "(i + 1) * R + (j * R + r - i * R - R) = j * R + r" using ge by simp
    moreover have "j * R + r < length M"
      using column_index_less [OF assms(4,5)] assms(2) by (simp add: mult.commute)
    ultimately show ?thesis using 3 lt assms(3) iR by (simp add: nth_append)
  qed
qed

lemma length_replaced_column:
  assumes "i < C" and "length M = R * C" and "length X = R"
  shows "length (take (i * R) M @ X @ drop ((i + 1) * R) M) = R * C"
proof -
  have "(i + 1) * R \<le> length M"
    using assms(1,2) by (simp add: mult.commute [of R C]) (metis Suc_leI mult_le_mono1 mult_Suc)
  then show ?thesis using assms(2,3) by simp
qed

lemma set_col_content:
  assumes "set_col m i x = Inr m'" and "well_formed m" and "length (mem x) = n_rows x"
  shows "well_formed m'"
    and "j < n_cols m \<Longrightarrow> r < n_rows m \<Longrightarrow>
      mem m' ! (j * n_rows m + r) = (if j = i then mem x ! r else mem m ! (j * n_rows m + r))"
proof -
  note s = set_col_Inr [OF assms(1)]
  have M: "length (mem m) = n_rows m * n_cols m" using assms(2) by (simp add: well_formed_def)
  have X: "length (mem x) = n_rows m" using assms(3) s(2) by simp
  show "well_formed m'"
    unfolding well_formed_def s(4,5,6) by (rule length_replaced_column [OF s(1) M X])
  show "mem m' ! (j * n_rows m + r) = (if j = i then mem x ! r else mem m ! (j * n_rows m + r))"
    if "j < n_cols m" "r < n_rows m"
    unfolding s(6) by (rule nth_replaced_column [OF s(1) M X that])
qed

lemma pack_loop_content:
  assumes "pack_loop fi fl idx inp lab = Inr (inp', lab')"
    and "well_formed inp" and "well_formed lab"
    and "\<forall>i \<in> set idx. length (mem (fi ! i)) = n_rows (fi ! i)
           \<and> length (mem (fl ! i)) = n_rows (fl ! i)"
    and "distinct idx"
  shows "n_rows inp' = n_rows inp \<and> n_cols inp' = n_cols inp
    \<and> n_rows lab' = n_rows lab \<and> n_cols lab' = n_cols lab
    \<and> well_formed inp' \<and> well_formed lab'
    \<and> (\<forall>j < n_cols inp. \<forall>r < n_rows inp. mem inp' ! (j * n_rows inp + r)
          = (if j \<in> set idx then mem (fi ! j) ! r else mem inp ! (j * n_rows inp + r)))
    \<and> (\<forall>j < n_cols lab. \<forall>r < n_rows lab. mem lab' ! (j * n_rows lab + r)
          = (if j \<in> set idx then mem (fl ! j) ! r else mem lab ! (j * n_rows lab + r)))"
  using assms
proof (induction idx arbitrary: inp lab)
  case Nil
  then show ?case by simp
next
  case (Cons i rest)
  from Cons.prems(1) obtain inp1 lab1 where
    s1: "set_col inp i (fi ! i) = Inr inp1" and s2: "set_col lab i (fl ! i) = Inr lab1"
    and rec: "pack_loop fi fl rest inp1 lab1 = Inr (inp', lab')"
    by (auto split: sum.splits)
  have li: "length (mem (fi ! i)) = n_rows (fi ! i)" and ll: "length (mem (fl ! i)) = n_rows (fl ! i)"
    using Cons.prems(4) by simp_all
  note c1 = set_col_content [OF s1 Cons.prems(2) li]
  note c2 = set_col_content [OF s2 Cons.prems(3) ll]
  note d1 = set_col_Inr(4,5) [OF s1]
  note d2 = set_col_Inr(4,5) [OF s2]
  have IH: "n_rows inp' = n_rows inp1 \<and> n_cols inp' = n_cols inp1
    \<and> n_rows lab' = n_rows lab1 \<and> n_cols lab' = n_cols lab1
    \<and> well_formed inp' \<and> well_formed lab'
    \<and> (\<forall>j < n_cols inp1. \<forall>r < n_rows inp1. mem inp' ! (j * n_rows inp1 + r)
          = (if j \<in> set rest then mem (fi ! j) ! r else mem inp1 ! (j * n_rows inp1 + r)))
    \<and> (\<forall>j < n_cols lab1. \<forall>r < n_rows lab1. mem lab' ! (j * n_rows lab1 + r)
          = (if j \<in> set rest then mem (fl ! j) ! r else mem lab1 ! (j * n_rows lab1 + r)))"
    by (rule Cons.IH [OF rec c1(1) c2(1)]) (use Cons.prems(4,5) in simp_all)
  have ni: "i \<notin> set rest" using Cons.prems(5) by simp
  have A: "mem inp' ! (j * n_rows inp + r)
          = (if j \<in> set (i # rest) then mem (fi ! j) ! r else mem inp ! (j * n_rows inp + r))"
    if "j < n_cols inp" "r < n_rows inp" for j r
  proof -
    have "mem inp' ! (j * n_rows inp + r)
        = (if j \<in> set rest then mem (fi ! j) ! r else mem inp1 ! (j * n_rows inp + r))"
      using IH that d1 by simp
    then show ?thesis using c1(2) [OF that] ni by auto
  qed
  have B: "mem lab' ! (j * n_rows lab + r)
          = (if j \<in> set (i # rest) then mem (fl ! j) ! r else mem lab ! (j * n_rows lab + r))"
    if "j < n_cols lab" "r < n_rows lab" for j r
  proof -
    have "mem lab' ! (j * n_rows lab + r)
        = (if j \<in> set rest then mem (fl ! j) ! r else mem lab1 ! (j * n_rows lab + r))"
      using IH that d2 by simp
    then show ?thesis using c2(2) [OF that] ni by auto
  qed
  show ?case using IH d1 d2 A B by simp
qed

lemma pack_loop_returns:
  assumes "\<forall>i \<in> set idx. i < n_cols inp \<and> i < n_cols lab
      \<and> n_rows (fi ! i) = n_rows inp \<and> n_cols (fi ! i) = 1
      \<and> n_rows (fl ! i) = n_rows lab \<and> n_cols (fl ! i) = 1"
  shows "\<exists>r. pack_loop fi fl idx inp lab = Inr r"
  using assms
proof (induction idx arbitrary: inp lab)
  case Nil
  then show ?case by simp
next
  case (Cons i rest)
  have s1: "set_col inp i (fi ! i) = Inr (inp\<lparr>mem := take (i * n_rows inp) (mem inp) @ mem (fi ! i)
      @ drop ((i + 1) * n_rows inp) (mem inp)\<rparr>)"
    by (rule set_col_eq) (use Cons.prems in simp_all)
  have s2: "set_col lab i (fl ! i) = Inr (lab\<lparr>mem := take (i * n_rows lab) (mem lab) @ mem (fl ! i)
      @ drop ((i + 1) * n_rows lab) (mem lab)\<rparr>)"
    by (rule set_col_eq) (use Cons.prems in simp_all)
  have "\<exists>r. pack_loop fi fl rest
      (inp\<lparr>mem := take (i * n_rows inp) (mem inp) @ mem (fi ! i) @ drop ((i + 1) * n_rows inp) (mem inp)\<rparr>)
      (lab\<lparr>mem := take (i * n_rows lab) (mem lab) @ mem (fl ! i) @ drop ((i + 1) * n_rows lab) (mem lab)\<rparr>)
      = Inr r"
    by (rule Cons.IH) (use Cons.prems in simp)
  then show ?case by (simp only: pack_loop.simps s1 s2 sum.case)
qed

lemma fixed_length_item:
  assumes "Generate_item bl True d = Inr (v, l)"
  shows "length v = 2 * bl + 1"
proof -
  from Generate_item_Inr [OF assms] obtain a b where
    ab: "choose_sizes bl True d = Inr (a, b)" and v: "v = make_input a b (drawBits d)"
    by blast
  show ?thesis using choose_sizes_Inr [OF ab] by (simp add: v length_make_input)
qed

lemma well_formed_zeros: "well_formed (zeros r c)"
  by (simp add: well_formed_def zeros_def)

lemma encoded_shape: "n_rows (encoded v) = 3 * length v" "n_cols (encoded v) = 1"
  "length (mem (encoded v)) = 3 * length v"
  by (simp_all add: encoded_def length_concat_onehot)

lemma padded_shape: "n_rows (padded p) = 3 * length (fst p)" "n_cols (padded p) = 1"
  "length (mem (padded p)) = 3 * length (fst p)"
  by (simp_all add: padded_def reshape_def n_elem_def encoded_shape)

lemma Generate_dense_Inr:
  assumes "Generate_dense t batchSize rnd = Inr (input, labels)"
  shows "\<exists>items. Generate_vecs t batchSize True rnd = Inr items
    \<and> Generate t batchSize True rnd = Inr (map (\<lambda>p. encoded (fst p)) items, map padded items)
    \<and> length items = batchSize \<and> 1 \<le> batchSize
    \<and> pack_loop (map (\<lambda>p. encoded (fst p)) items) (map padded items) [0..<batchSize]
         (set_size (3 * (2 * bitLen t + 1)) batchSize)
         (set_size (3 * (2 * bitLen t + 1)) batchSize) = Inr (input, labels)"
proof (cases "Generate t batchSize True rnd")
  case (Inl e)
  then show ?thesis using assms by (simp add: Generate_dense_def)
next
  case (Inr r)
  obtain fi fl where r: "r = (fi, fl)" by (cases r)
  from Generate_Inr [OF Inr [unfolded r]] obtain items where
    g: "Generate_vecs t batchSize True rnd = Inr items" and
    fi: "fi = map (\<lambda>p. encoded (fst p)) items" and fl: "fl = map padded items"
    by blast
  have len: "length items = batchSize" by (rule Generate_vecs_nth(1) [OF g])
  have ne: "fi \<noteq> []" and pl: "pack_loop fi fl [0..<batchSize]
         (set_size (n_rows (fi ! 0)) batchSize) (set_size (n_rows (fl ! 0)) batchSize)
       = Inr (input, labels)"
    using assms by (auto simp: Generate_dense_def Inr r split: if_splits)
  have pos: "0 < batchSize" using ne len fi by (cases items) auto
  have "Generate_item (bitLen t) True (rnd 0) = Inr (fst (items ! 0), snd (items ! 0))"
    using Generate_vecs_nth(2) [OF g pos] by simp
  then have l0: "length (fst (items ! 0)) = 2 * bitLen t + 1" by (rule fixed_length_item)
  have "fi ! 0 = encoded (fst (items ! 0))" using pos len by (simp add: fi)
  then have r1: "n_rows (fi ! 0) = 3 * (2 * bitLen t + 1)" by (simp add: encoded_shape l0)
  have "fl ! 0 = padded (fst (items ! 0), snd (items ! 0))" using pos len by (simp add: fl)
  then have r2: "n_rows (fl ! 0) = 3 * (2 * bitLen t + 1)" by (simp add: padded_shape l0)
  have pl': "pack_loop fi fl [0..<batchSize]
         (set_size (3 * (2 * bitLen t + 1)) batchSize)
         (set_size (3 * (2 * bitLen t + 1)) batchSize) = Inr (input, labels)"
    using pl by (simp only: r1 r2)
  have G: "Generate t batchSize True rnd = Inr (fi, fl)" using Inr r by simp
  have one: "1 \<le> batchSize" using pos by simp
  show ?thesis
    using g G [unfolded fi fl] len one pl' [unfolded fi fl] by (intro exI [of _ items] conjI)
qed

lemma Generate_dense_returns:
  assumes "1 \<le> batchSize" and "bitLen t \<le> 30"
  shows "\<exists>r. Generate_dense t batchSize rnd = Inr r"
proof -
  from Generate_returns [OF assms(2), of True batchSize rnd] obtain fi fl where
    G: "Generate t batchSize True rnd = Inr (fi, fl)" by auto
  from Generate_Inr [OF G] obtain items where
    g: "Generate_vecs t batchSize True rnd = Inr items" and
    fi: "fi = map (\<lambda>p. encoded (fst p)) items" and fl: "fl = map padded items"
    by blast
  have len: "length items = batchSize" by (rule Generate_vecs_nth(1) [OF g])
  have li: "length (fst (items ! i)) = 2 * bitLen t + 1" if "i < batchSize" for i
  proof -
    have "Generate_item (bitLen t) True (rnd i) = Inr (fst (items ! i), snd (items ! i))"
      using Generate_vecs_nth(2) [OF g that] by simp
    then show ?thesis by (rule fixed_length_item)
  qed
  have rows: "n_rows (fi ! i) = 3 * (2 * bitLen t + 1) \<and> n_cols (fi ! i) = 1
      \<and> n_rows (fl ! i) = 3 * (2 * bitLen t + 1) \<and> n_cols (fl ! i) = 1" if "i < batchSize" for i
  proof -
    have "fi ! i = encoded (fst (items ! i))" using that len by (simp add: fi)
    moreover have "fl ! i = padded (fst (items ! i), snd (items ! i))"
      using that len by (simp add: fl)
    ultimately show ?thesis using li [OF that] by (simp add: encoded_shape padded_shape)
  qed
  have ne: "fi \<noteq> []" "fl \<noteq> []" using assms(1) len by (auto simp: fi fl)
  have "\<exists>r. pack_loop fi fl [0..<batchSize]
         (set_size (n_rows (fi ! 0)) batchSize) (set_size (n_rows (fl ! 0)) batchSize) = Inr r"
  proof (rule pack_loop_returns, intro ballI)
    fix i assume "i \<in> set [0..<batchSize]"
    then have i: "i < batchSize" by simp
    have z: "0 < batchSize" using assms(1) by simp
    show "i < n_cols (set_size (n_rows (fi ! 0)) batchSize)
      \<and> i < n_cols (set_size (n_rows (fl ! 0)) batchSize)
      \<and> n_rows (fi ! i) = n_rows (set_size (n_rows (fi ! 0)) batchSize) \<and> n_cols (fi ! i) = 1
      \<and> n_rows (fl ! i) = n_rows (set_size (n_rows (fl ! 0)) batchSize) \<and> n_cols (fl ! i) = 1"
      using rows [OF i] rows [OF z] i by (simp add: set_size_def zeros_def)
  qed
  then show ?thesis using ne by (simp add: Generate_dense_def G)
qed

lemma length_repmat: "length (repmat v n) = n * length v"
  by (induction n) (simp_all add: repmat_def)

lemma value_channel_put:
  assumes "1 \<le> sz" and "length b = sz"
  shows "set_col_rows (zeros (sz + n) 2) 0 0 (size_t_minus sz 1) b
    = Inr \<lparr>n_rows = sz + n, n_cols = 2, mem = b @ replicate (sz + 2 * n) 0\<rparr>"
proof -
  have "drop sz (replicate ((sz + n) * 2) (0::int)) = replicate (sz + 2 * n) 0"
    by (simp add: algebra_simps)
  then show ?thesis
    using assms by (simp add: set_col_rows_def zeros_def size_t_minus_def)
qed

lemma delimiter_channel_put:
  assumes "1 \<le> n" and "length b = sz"
  shows "set_col_rows \<lparr>n_rows = sz + n, n_cols = 2, mem = b @ replicate (sz + 2 * n) 0\<rparr>
      1 sz (size_t_minus (sz + n) 1) (ones (size_t_minus (sz + n) sz))
    = Inr \<lparr>n_rows = sz + n, n_cols = 2,
           mem = (b @ replicate n 0) @ (replicate sz 0 @ replicate n 1)\<rparr>"
proof -
  have "take (sz + n + sz) (b @ replicate (sz + 2 * n) 0) = b @ replicate (n + sz) 0"
    using assms(2) by simp
  moreover have "drop (sz + n + (sz + n - 1) + 1) (b @ replicate (sz + 2 * n) (0::int)) = []"
    using assms by simp
  moreover have "replicate (n + sz) (0::int) = replicate n 0 @ replicate sz 0"
    by (simp add: replicate_add)
  ultimately show ?thesis
    using assms by (simp add: set_col_rows_def size_t_minus_def ones_def)
qed

lemma delimiter_channel_out_of_bounds:
  assumes "1 \<le> sz"
  shows "set_col_rows m (Suc 0) sz (size_t_minus sz (Suc 0)) x = Inl IndexOutOfBounds"
proof -
  have "\<not> sz \<le> sz - Suc 0" using assms by simp
  then show ?thesis by (simp add: set_col_rows_def size_t_minus_def)
qed

lemma label_put:
  assumes "1 \<le> n" and "length L = n"
  shows "set_col_rows (zeros (sz + n) 1) 0 sz (size_t_minus (sz + n) 1) L
    = Inr \<lparr>n_rows = sz + n, n_cols = 1, mem = replicate sz 0 @ L\<rparr>"
  using assms by (simp add: set_col_rows_def size_t_minus_def zeros_def)

lemma transposed_flat:
  assumes "length b = sz"
  shows "reshape (n_elem (mat_t \<lparr>n_rows = sz + n, n_cols = 2,
                 mem = (b @ replicate n 0) @ (replicate sz 0 @ replicate n 1)\<rparr>)) 1
           (mat_t \<lparr>n_rows = sz + n, n_cols = 2,
                 mem = (b @ replicate n 0) @ (replicate sz 0 @ replicate n 1)\<rparr>)
    = interleaved b n"
  using assms by (simp add: reshape_def n_elem_def mat_t_def interleaved_def)

lemma Copy_item_eq:
  assumes "RandInt 2 (size_t_plus ml 1) (drawSize d) = Inr sz" and "1 \<le> nr"
  shows "Copy_item ml nr d
    = Inr (interleaved (randi sz 0 1 (drawSeq d)) (nr * sz),
           \<lparr>n_rows = sz + nr * sz, n_cols = 1,
            mem = replicate sz 0 @ repmat (randi sz 0 1 (drawSeq d)) nr\<rparr>)"
proof -
  define b where "b = randi sz 0 1 (drawSeq d)"
  define n where "n = nr * sz"
  have sz: "2 \<le> sz" by (rule RandInt_Inr(1) [OF assms(1)])
  have lb: "length b = sz" by (simp add: b_def length_randi)
  have lr: "length (repmat b nr) = n" by (simp add: length_repmat lb n_def)
  have n1: "1 \<le> n" using sz assms(2) by (simp add: n_def)
  have s1: "1 \<le> sz" using sz by simp
  note p1 = value_channel_put [OF s1 lb, of n]
  note p2 = delimiter_channel_put [OF n1 lb]
  note p3 = label_put [OF n1 lr, of sz]
  note p4 = transposed_flat [OF lb, of n]
  show ?thesis
    unfolding Copy_item_def assms(1) sum.case Let_def b_def [symmetric] lb lr p1 p2 p3 p4
    by (simp add: n_def)
qed

lemma Copy_item_no_repeats:
  assumes "RandInt 2 (size_t_plus ml 1) (drawSize d) = Inr sz"
  shows "Copy_item ml 0 d = Inl IndexOutOfBounds"
proof -
  define b where "b = randi sz 0 1 (drawSeq d)"
  have sz: "2 \<le> sz" by (rule RandInt_Inr(1) [OF assms(1)])
  have lb: "length b = sz" by (simp add: b_def length_randi)
  have s1: "1 \<le> sz" using sz by simp
  note p1 = value_channel_put [OF s1 lb, of 0]
  have r0: "length (repmat b 0) = 0" by (simp add: repmat_def)
  show ?thesis
    unfolding Copy_item_def assms(1) sum.case Let_def b_def [symmetric] lb r0 p1
    by (simp add: delimiter_channel_out_of_bounds [OF s1])
qed

lemma nth_padded_bits:
  assumes "p < length b + n"
  shows "(b @ replicate n x) ! p = (if p < length b then b ! p else x)"
proof (cases "p < length b")
  case True
  then show ?thesis by (simp add: nth_append_left)
next
  case False
  then have "(b @ replicate n x) ! p = replicate n x ! (p - length b)"
    by (simp add: nth_append_right)
  also have "\<dots> = x" using assms False by (intro nth_replicate) simp
  finally show ?thesis using False by simp
qed

lemma nth_interleaved:
  assumes "p < length b + n"
  shows "mem (interleaved b n) ! (2 * p) = (if p < length b then b ! p else 0)"
    and "mem (interleaved b n) ! (2 * p + 1) = (if p < length b then 0 else 1)"
proof -
  have i0: "2 * p < (length b + n) * 2" and i1: "2 * p + 1 < (length b + n) * 2"
    using assms by simp_all
  have l: "length b + n = length (b @ replicate n (0::int))" by simp
  have pl: "p < length (b @ replicate n (0::int))" using assms by simp
  have "mem (interleaved b n) ! (2 * p)
      = ((b @ replicate n 0) @ (replicate (length b) 0 @ replicate n 1)) ! p"
    using i0 by (simp add: interleaved_def)
  also have "\<dots> = (b @ replicate n 0) ! p" by (rule nth_append_left [OF pl])
  also have "\<dots> = (if p < length b then b ! p else 0)" by (rule nth_padded_bits [OF assms])
  finally show "mem (interleaved b n) ! (2 * p) = (if p < length b then b ! p else 0)" .
  have "mem (interleaved b n) ! (2 * p + 1)
      = ((b @ replicate n 0) @ (replicate (length b) 0 @ replicate n 1)) ! (length b + n + p)"
    using i1 by (simp add: interleaved_def)
  also have "\<dots> = (replicate (length b) 0 @ replicate n 1) ! p"
    by (simp only: l nth_append_length_plus)
  also have "\<dots> = (if p < length (replicate (length b) (0::int)) then replicate (length b) 0 ! p else 1)"
    by (rule nth_padded_bits) (use assms in simp)
  also have "\<dots> = (if p < length b then 0 else 1)" by simp
  finally show "mem (interleaved b n) ! (2 * p + 1) = (if p < length b then 0 else 1)" .
qed

lemma Copy_Generate_nth:
  assumes "Copy_Generate t batchSize rnd = Inr (input, labels)" and "i < batchSize"
  shows "Copy_item (maxLength t) (nRepeats t) (rnd i) = Inr (input ! i, labels ! i)"
proof -
  obtain items where
    m: "mapM (\<lambda>i. Copy_item (maxLength t) (nRepeats t) (rnd i)) [0..<batchSize] = Inr items"
    and inp: "input = map fst items" and lab: "labels = map snd items"
    using assms(1) by (auto simp: Copy_Generate_def split: sum.splits)
  have len: "length items = batchSize" using mapM_length [OF m] by simp
  have "Copy_item (maxLength t) (nRepeats t) (rnd i) = Inr (items ! i)"
    using mapM_nth [OF m, of i] assms(2) by simp
  then show ?thesis using len assms(2) by (simp add: inp lab)
qed

lemma Copy_item_Inr:
  assumes "Copy_item ml nr d = Inr (inp, lab)"
  shows "\<exists>sz. RandInt 2 (size_t_plus ml 1) (drawSize d) = Inr sz \<and> 1 \<le> nr
    \<and> inp = interleaved (randi sz 0 1 (drawSeq d)) (nr * sz)
    \<and> lab = \<lparr>n_rows = sz + nr * sz, n_cols = 1,
              mem = replicate sz 0 @ repmat (randi sz 0 1 (drawSeq d)) nr\<rparr>"
proof (cases "RandInt 2 (size_t_plus ml 1) (drawSize d)")
  case (Inl e)
  then show ?thesis using assms by (simp add: Copy_item_def)
next
  case (Inr sz)
  show ?thesis
  proof (cases "nr = 0")
    case True
    then show ?thesis using assms Copy_item_no_repeats [OF Inr] by simp
  next
    case False
    then have "1 \<le> nr" by simp
    then show ?thesis using assms Copy_item_eq [OF Inr] Inr by simp
  qed
qed



section \<open>Operands within the range of int\<close>

text \<open>
  For \<open>bitLen \<le> 31\<close> both operands fit an \<^verbatim>\<open>int\<close>. Whenever an item is returned
  then, the label column read back (its leading indicator triples, most
  significant bit first) is the sum of the two operands read from the input
  column.
\<close>

lemma roundtrip_within_int:
  assumes "Generate t batchSize fixedLength rnd = Inr (input, labels)"
    and "bitLen t \<le> 31" and "i < batchSize"
  shows "decode_be (unbinarize (mem (labels ! i)))
    = decode_be (operandA (unbinarize (mem (input ! i))))
      + decode_be (operandB (unbinarize (mem (input ! i))))"
proof -
  from Generate_nth [OF assms(1,3)] obtain v l where
    g: "Generate_item (bitLen t) fixedLength (rnd i) = Inr (v, l)" and
    inp: "input ! i = encoded v" and lab: "labels ! i = padded (v, l)"
    by blast
  have "unbinarize (mem (input ! i)) = v"
    unfolding inp by (rule unbinarize_encoded) (rule Generate_item_symbols(1) [OF g])
  moreover have "unbinarize (mem (labels ! i)) = l"
    unfolding lab
    by (rule unbinarize_padded) (rule Generate_item_symbols(2) [OF g], rule Generate_item_sum(4) [OF g])
  ultimately show ?thesis using Generate_item_sum(6) [OF g assms(2)] by simp
qed

text \<open>
  The label sequence before encoding is never empty and consists of bits. When
  all input bits are zero it is exactly \<open>[0]\<close>; unless it is \<open>[0]\<close> it starts with
  1, and for \<open>bitLen \<le> 31\<close> it is the binary representation of the sum of the two
  operands.
\<close>

lemma label_sequence_within_int:
  assumes "Generate_vecs t batchSize fixedLength rnd = Inr items" and "i < batchSize"
  shows "snd (items ! i) \<noteq> []
    \<and> set (snd (items ! i)) \<subseteq> {0, 1}
    \<and> (set (fst (items ! i)) \<subseteq> {0, 2} \<longrightarrow> snd (items ! i) = [0])
    \<and> (snd (items ! i) \<noteq> [0] \<longrightarrow> hd (snd (items ! i)) = 1)
    \<and> (bitLen t \<le> 31 \<longrightarrow>
         decode_be (snd (items ! i))
           = decode_be (operandA (fst (items ! i))) + decode_be (operandB (fst (items ! i))))"
proof -
  have g: "Generate_item (bitLen t) fixedLength (rnd i) = Inr (fst (items ! i), snd (items ! i))"
    using Generate_vecs_nth(2) [OF assms] by simp
  note s = Generate_item_sum [OF g]
  show ?thesis
  proof (intro conjI impI)
    show "snd (items ! i) \<noteq> []" by (rule s(2))
    show "set (snd (items ! i)) \<subseteq> {0, 1}" by (rule Generate_item_symbols(2) [OF g])
    show "snd (items ! i) = [0]" if "set (fst (items ! i)) \<subseteq> {0, 2}" using that by (rule s(7))
    show "hd (snd (items ! i)) = 1" if "snd (items ! i) \<noteq> [0]" using that by (rule s(3))
    show "decode_be (snd (items ! i))
           = decode_be (operandA (fst (items ! i))) + decode_be (operandB (fst (items ! i)))"
      if "bitLen t \<le> 31" using that by (rule s(6))
  qed
qed

section \<open>The range of the drawn sizes\<close>



section \<open>The claims\<close>

text \<open>
  C1. The round trip does not hold of every generated item. The constructor
  accepts \<open>bitLen = 32\<close>; with the operands \<open>2 ^ 31 + 1\<close> and \<open>2 ^ 31 - 1\<close> the
  fixed-length form returns an item whose label column reads 0, while the two
  operands read from its input column sum to \<open>2 ^ 32\<close>. The operands are
  accumulated in \<^verbatim>\<open>int\<close>s, which a 32-bit operand overflows.
\<close>

theorem Generate_roundtrip_overflow:
  "AddTask_new 32 = Inr \<lparr>bitLen = 32\<rparr>
   \<and> Generate \<lparr>bitLen = 32\<rparr> 1 True overflow_draws
       = Inr ([encoded overflow_input], [padded (overflow_input, [0])])
   \<and> decode_be (unbinarize (mem (padded (overflow_input, [0])))) = 0
   \<and> decode_be (operandA (unbinarize (mem (encoded overflow_input))))
       + decode_be (operandB (unbinarize (mem (encoded overflow_input)))) = 4294967296"
proof -
  have "AddTask_new 32 = Inr \<lparr>bitLen = 32\<rparr>" by (simp add: AddTask_new_def)
  moreover have "Generate \<lparr>bitLen = 32\<rparr> 1 True overflow_draws
     = Inr ([encoded overflow_input], [padded (overflow_input, [0])])"
    using Generate_eq [OF overflow_vecs] by simp
  moreover have "unbinarize (mem (encoded overflow_input)) = overflow_input"
    by (rule unbinarize_encoded [OF overflow_symbols])
  moreover have "unbinarize (mem (padded (overflow_input, [0]))) = [0]"
    by (rule unbinarize_padded) (simp_all add: overflow_input_def)
  moreover have "decode_be [0] = 0" by (simp add: decode_be_def)
  ultimately show ?thesis
    using overflow_operandA overflow_operandB by simp
qed

text \<open>
  C2, as amended. For a task with \<open>bitLen \<ge> 1\<close>, every label item returned by the
  field form is a single column whose element count is that of the input item of
  the same index, \<open>3 * (sizeA + sizeB + 1)\<close>: the one-hot encoding of the label's
  digits followed by zeros. The label has fewer digits than the input has symbols,
  so the reshape always enlarges the label's own encoding.
\<close>

theorem Generate_label_shape:
  assumes "Generate t batchSize fixedLength rnd = Inr (input, labels)"
    and "Generate_vecs t batchSize fixedLength rnd = Inr items"
    and "1 \<le> bitLen t" and "i < batchSize"
  shows "n_cols (labels ! i) = 1
    \<and> n_rows (labels ! i) = n_elem (input ! i)
    \<and> n_elem (input ! i) = 3 * length (fst (items ! i))
    \<and> length (snd (items ! i)) < length (fst (items ! i))
    \<and> mem (labels ! i)
        = concat (map onehot (snd (items ! i)))
          @ replicate (3 * (length (fst (items ! i)) - length (snd (items ! i)))) 0"
proof -
  have len: "i < length items" using Generate_vecs_nth(1) [OF assms(2)] assms(4) by simp
  have g: "Generate_item (bitLen t) fixedLength (rnd i) = Inr (fst (items ! i), snd (items ! i))"
    using Generate_vecs_nth(2) [OF assms(2,4)] by simp
  have "Inr (input, labels) = Inr (map (\<lambda>p. encoded (fst p)) items, map padded items)"
    using Generate_eq [OF assms(2)] assms(1) by simp
  then have inp: "input ! i = encoded (fst (items ! i))"
    and lab: "labels ! i = padded (fst (items ! i), snd (items ! i))"
    using len by simp_all
  have lt: "length (snd (items ! i)) < length (fst (items ! i))"
    by (rule Generate_item_sum(5) [OF g assms(3)])
  then have le: "length (snd (items ! i)) \<le> length (fst (items ! i))" by simp
  show ?thesis
    unfolding inp lab mem_padded [OF le] using lt by (simp add: encoded_def n_elem_def)
qed

theorem Generate_label_shape_witness:
  "Generate \<lparr>bitLen = 2\<rparr> 1 True sample_draws
     = Inr ([\<lparr>n_rows = 15, n_cols = 1, mem = [1, 0, 0, 0, 1, 0, 0, 0, 1, 0, 1, 0, 1, 0, 0]\<rparr>],
            [\<lparr>n_rows = 15, n_cols = 1, mem = [0, 1, 0, 0, 1, 0, 0, 0, 0, 0, 0, 0, 0, 0, 0]\<rparr>])
   \<and> Generate_vecs \<lparr>bitLen = 2\<rparr> 1 True sample_draws = Inr [([0, 1, 2, 1, 0], [1, 1])]
   \<and> [0, 1, 0, 0, 1, 0, 0, 0, 0, 0, 0, 0, 0, 0, 0]
       = concat (map onehot [1, 1]) @ replicate (3 * (length [0, 1, 2, 1, 0 :: int] - length [1, 1 :: int])) 0"
proof -
  have g: "Generate \<lparr>bitLen = 2\<rparr> 1 True sample_draws
     = Inr ([\<lparr>n_rows = 15, n_cols = 1, mem = [1, 0, 0, 0, 1, 0, 0, 0, 1, 0, 1, 0, 1, 0, 0]\<rparr>],
            [\<lparr>n_rows = 15, n_cols = 1, mem = [0, 1, 0, 0, 1, 0, 0, 0, 0, 0, 0, 0, 0, 0, 0]\<rparr>])"
    by code_simp
  have v: "Generate_vecs \<lparr>bitLen = 2\<rparr> 1 True sample_draws = Inr [([0, 1, 2, 1, 0], [1, 1])]"
    by code_simp
  have b: "1 \<le> bitLen \<lparr>bitLen = 2\<rparr>" by simp
  have i: "(0::nat) < 1" by simp
  from Generate_label_shape [OF g v b i] show ?thesis using g v by simp
qed

text \<open>
  The label's element count is not that of its own encoding: for \<open>bitLen = 1\<close> and
  all bits zero the label \<open>[0]\<close> encodes to 3 elements and is returned with 9.
\<close>

theorem Generate_label_shape_counterexample:
  "Generate \<lparr>bitLen = 1\<rparr> 1 True zero_draws
     = Inr ([\<lparr>n_rows = 9, n_cols = 1, mem = [1, 0, 0, 0, 0, 1, 1, 0, 0]\<rparr>],
            [\<lparr>n_rows = 9, n_cols = 1, mem = [1, 0, 0, 0, 0, 0, 0, 0, 0]\<rparr>])
   \<and> Generate_vecs \<lparr>bitLen = 1\<rparr> 1 True zero_draws = Inr [([0, 2, 0], [0])]
   \<and> n_elem \<lparr>n_rows = 9, n_cols = 1, mem = [1, 0, 0, 0, 0, 0, 0, 0, 0]\<rparr> \<noteq> 3 * length [0 :: int]"
  by code_simp

text \<open>
  C3. Every item CopyTask's Generate returns comes from a drawn length \<open>sz\<close> in
  \<open>[2, maxLength]\<close> and a bit sequence \<open>b\<close> of that length. The label is a single
  column of length \<open>sz + sz * nRepeats\<close>: \<open>sz\<close> zeros, then \<open>nRepeats\<close> copies of
  \<open>b\<close>. The input is one column holding, for each time position \<open>p\<close>, the value
  channel at \<open>2 * p\<close> and the delimiter channel at \<open>2 * p + 1\<close>: the value channel
  is \<open>b\<close> on the first \<open>sz\<close> positions and zero after them, the delimiter channel
  zero on the first \<open>sz\<close> positions and one after them.
\<close>

theorem Copy_Generate_item:
  assumes "Copy_Generate t batchSize rnd = Inr (input, labels)" and "i < batchSize"
  shows "\<exists>sz b. 2 \<le> sz \<and> sz \<le> maxLength t \<and> length b = sz \<and> set b \<subseteq> {0, 1}
    \<and> labels ! i = \<lparr>n_rows = sz + sz * nRepeats t, n_cols = 1,
                      mem = replicate sz 0 @ concat (replicate (nRepeats t) b)\<rparr>
    \<and> n_rows (input ! i) = 2 * (sz + sz * nRepeats t) \<and> n_cols (input ! i) = 1
    \<and> length (mem (input ! i)) = 2 * (sz + sz * nRepeats t)
    \<and> (\<forall>p < sz + sz * nRepeats t.
          mem (input ! i) ! (2 * p) = (if p < sz then b ! p else 0)
        \<and> mem (input ! i) ! (2 * p + 1) = (if p < sz then 0 else 1))"
proof -
  from Copy_item_Inr [OF Copy_Generate_nth [OF assms]] obtain sz where
    r: "RandInt 2 (size_t_plus (maxLength t) 1) (drawSize (rnd i)) = Inr sz" and
    inp: "input ! i = interleaved (randi sz 0 1 (drawSeq (rnd i))) (nRepeats t * sz)" and
    lab: "labels ! i = \<lparr>n_rows = sz + nRepeats t * sz, n_cols = 1,
              mem = replicate sz 0 @ repmat (randi sz 0 1 (drawSeq (rnd i))) (nRepeats t)\<rparr>"
    by blast
  define b where "b = randi sz 0 1 (drawSeq (rnd i))"
  have lb: "length b = sz" by (simp add: b_def length_randi)
  have sb: "set b \<subseteq> {0, 1}" unfolding b_def by (rule set_randi_bits)
  have sz: "2 \<le> sz" "sz \<le> maxLength t"
    using RandInt_Inr [OF r] size_t_plus_le [of "maxLength t" 1] by simp_all
  have c: "nRepeats t * sz = sz * nRepeats t" by simp
  have ch: "mem (input ! i) ! (2 * p) = (if p < sz then b ! p else 0)
        \<and> mem (input ! i) ! (2 * p + 1) = (if p < sz then 0 else 1)"
    if "p < sz + sz * nRepeats t" for p
  proof -
    have "p < length b + nRepeats t * sz" using that lb by (simp add: c)
    from nth_interleaved [OF this] show ?thesis
      unfolding inp b_def [symmetric] lb by simp
  qed
  have shape: "n_rows (input ! i) = 2 * (sz + sz * nRepeats t)" "n_cols (input ! i) = 1"
    "length (mem (input ! i)) = 2 * (sz + sz * nRepeats t)"
    unfolding inp b_def [symmetric] by (simp_all add: interleaved_def lb c)
  have l: "labels ! i = \<lparr>n_rows = sz + sz * nRepeats t, n_cols = 1,
                      mem = replicate sz 0 @ concat (replicate (nRepeats t) b)\<rparr>"
    unfolding lab b_def [symmetric] by (simp add: repmat_def c)
  show ?thesis
    using sz lb sb l shape ch by blast
qed

theorem Copy_Generate_item_witness:
  "Copy_Generate \<lparr>maxLength = 5, nRepeats = 2\<rparr> 1 copy_sample
     = Inr ([\<lparr>n_rows = 18, n_cols = 1,
              mem = [1, 0, 0, 0, 1, 0, 0, 1, 0, 1, 0, 1, 0, 1, 0, 1, 0, 1]\<rparr>],
            [\<lparr>n_rows = 9, n_cols = 1, mem = [0, 0, 0, 1, 0, 1, 1, 0, 1]\<rparr>])
   \<and> (\<exists>sz b. 2 \<le> sz \<and> sz \<le> 5 \<and> length b = sz
        \<and> [0, 0, 0, 1, 0, 1, 1, 0, 1 :: int] = replicate sz 0 @ concat (replicate 2 b))"
proof -
  have g: "Copy_Generate \<lparr>maxLength = 5, nRepeats = 2\<rparr> 1 copy_sample
     = Inr ([\<lparr>n_rows = 18, n_cols = 1,
              mem = [1, 0, 0, 0, 1, 0, 0, 1, 0, 1, 0, 1, 0, 1, 0, 1, 0, 1]\<rparr>],
            [\<lparr>n_rows = 9, n_cols = 1, mem = [0, 0, 0, 1, 0, 1, 1, 0, 1]\<rparr>])"
    by code_simp
  have i: "(0::nat) < 1" by simp
  from Copy_Generate_item [OF g i] obtain sz b where
    "2 \<le> sz" "sz \<le> maxLength \<lparr>maxLength = 5, nRepeats = 2\<rparr>" "length b = sz"
    "[\<lparr>n_rows = 9, n_cols = 1, mem = [0, 0, 0, 1, 0, 1, 1, 0, 1]\<rparr>] ! 0
      = \<lparr>n_rows = sz + sz * nRepeats \<lparr>maxLength = 5, nRepeats = 2\<rparr>, n_cols = 1,
         mem = replicate sz 0 @ concat (replicate (nRepeats \<lparr>maxLength = 5, nRepeats = 2\<rparr>) b)\<rparr>"
    by blast
  then have "2 \<le> sz \<and> sz \<le> 5 \<and> length b = sz
        \<and> [0, 0, 0, 1, 0, 1, 1, 0, 1 :: int] = replicate sz 0 @ concat (replicate 2 b)"
    by simp
  then show ?thesis using g by blast
qed

text \<open>
  C4. The dense form calls the field form with \<open>fixedLength = true\<close>, so every
  item's sequence before encoding has length \<open>2 * bitLen + 1\<close>, and the two
  matrices it returns have \<open>batchSize\<close> columns and \<open>3 * (2 * bitLen + 1)\<close> rows,
  the common encoded width; column \<open>i\<close> of each holds item \<open>i\<close> of the field
  form. For \<open>batchSize \<ge> 1\<close> and \<open>bitLen \<le> 30\<close> the call returns.
\<close>

theorem Generate_dense_shape:
  "(1 \<le> batchSize \<and> bitLen t \<le> 30 \<longrightarrow> (\<exists>r. Generate_dense t batchSize rnd = Inr r))
   \<and> (Generate_dense t batchSize rnd = Inr (input, labels) \<longrightarrow>
        (\<exists>fieldInput fieldLabels items.
           Generate t batchSize True rnd = Inr (fieldInput, fieldLabels)
         \<and> Generate_vecs t batchSize True rnd = Inr items
         \<and> (\<forall>i < batchSize. length (fst (items ! i)) = 2 * bitLen t + 1)
         \<and> n_rows input = 3 * (2 * bitLen t + 1) \<and> n_cols input = batchSize
         \<and> n_rows labels = 3 * (2 * bitLen t + 1) \<and> n_cols labels = batchSize
         \<and> (\<forall>i < batchSize. \<forall>r < 3 * (2 * bitLen t + 1).
               mem input ! (i * n_rows input + r) = mem (fieldInput ! i) ! r
             \<and> mem labels ! (i * n_rows labels + r) = mem (fieldLabels ! i) ! r)))"
proof (intro conjI impI)
  show "\<exists>r. Generate_dense t batchSize rnd = Inr r" if "1 \<le> batchSize \<and> bitLen t \<le> 30"
    using that Generate_dense_returns by blast
next
  assume a: "Generate_dense t batchSize rnd = Inr (input, labels)"
  define R where "R = 3 * (2 * bitLen t + 1)"
  from Generate_dense_Inr [OF a] obtain items where
    g: "Generate_vecs t batchSize True rnd = Inr items" and
    G: "Generate t batchSize True rnd = Inr (map (\<lambda>p. encoded (fst p)) items, map padded items)" and
    len: "length items = batchSize" and
    pl: "pack_loop (map (\<lambda>p. encoded (fst p)) items) (map padded items) [0..<batchSize]
         (set_size R batchSize) (set_size R batchSize) = Inr (input, labels)"
    unfolding R_def by blast
  have li: "length (fst (items ! i)) = 2 * bitLen t + 1" if "i < batchSize" for i
  proof -
    have "Generate_item (bitLen t) True (rnd i) = Inr (fst (items ! i), snd (items ! i))"
      using Generate_vecs_nth(2) [OF g that] by simp
    then show ?thesis by (rule fixed_length_item)
  qed
  have wf: "\<forall>i \<in> set [0..<batchSize].
      length (mem (map (\<lambda>p. encoded (fst p)) items ! i)) = n_rows (map (\<lambda>p. encoded (fst p)) items ! i)
      \<and> length (mem (map padded items ! i)) = n_rows (map padded items ! i)"
  proof
    fix i assume "i \<in> set [0..<batchSize]"
    then have i: "i < length items" using len by simp
    have "map padded items ! i = padded (fst (items ! i), snd (items ! i))" using i by simp
    then show "length (mem (map (\<lambda>p. encoded (fst p)) items ! i)) = n_rows (map (\<lambda>p. encoded (fst p)) items ! i)
      \<and> length (mem (map padded items ! i)) = n_rows (map padded items ! i)"
      using i by (simp add: encoded_shape padded_shape)
  qed
  note c = pack_loop_content [OF pl _ _ wf, unfolded set_size_def, OF well_formed_zeros well_formed_zeros]
  have d: "distinct [0..<batchSize]" by simp
  note c' = c [OF d, unfolded zeros_def, simplified]
  have shape: "n_rows input = R" "n_cols input = batchSize" "n_rows labels = R" "n_cols labels = batchSize"
    using c' by simp_all
  have content: "mem input ! (i * n_rows input + r) = mem (map (\<lambda>p. encoded (fst p)) items ! i) ! r
             \<and> mem labels ! (i * n_rows labels + r) = mem (map padded items ! i) ! r"
    if "i < batchSize" "r < R" for i r
    using c' that shape by simp
  show "\<exists>fieldInput fieldLabels items.
           Generate t batchSize True rnd = Inr (fieldInput, fieldLabels)
         \<and> Generate_vecs t batchSize True rnd = Inr items
         \<and> (\<forall>i < batchSize. length (fst (items ! i)) = 2 * bitLen t + 1)
         \<and> n_rows input = 3 * (2 * bitLen t + 1) \<and> n_cols input = batchSize
         \<and> n_rows labels = 3 * (2 * bitLen t + 1) \<and> n_cols labels = batchSize
         \<and> (\<forall>i < batchSize. \<forall>r < 3 * (2 * bitLen t + 1).
               mem input ! (i * n_rows input + r) = mem (fieldInput ! i) ! r
             \<and> mem labels ! (i * n_rows labels + r) = mem (fieldLabels ! i) ! r)"
    using G g li shape content unfolding R_def by blast
qed

theorem Generate_dense_shape_witness:
  "Generate_dense \<lparr>bitLen = 1\<rparr> 2 sample_draws
     = Inr (\<lparr>n_rows = 9, n_cols = 2, mem = [1, 0, 0, 0, 0, 1, 1, 0, 0, 0, 1, 0, 0, 0, 1, 0, 1, 0]\<rparr>,
            \<lparr>n_rows = 9, n_cols = 2, mem = [1, 0, 0, 0, 0, 0, 0, 0, 0, 0, 1, 0, 1, 0, 0, 0, 0, 0]\<rparr>)
   \<and> (\<exists>r. Generate_dense \<lparr>bitLen = 1\<rparr> 2 sample_draws = Inr r)
   \<and> (\<exists>items. Generate_vecs \<lparr>bitLen = 1\<rparr> 2 True sample_draws = Inr items
        \<and> length (fst (items ! 1)) = 3)"
proof -
  have g: "Generate_dense \<lparr>bitLen = 1\<rparr> 2 sample_draws
     = Inr (\<lparr>n_rows = 9, n_cols = 2, mem = [1, 0, 0, 0, 0, 1, 1, 0, 0, 0, 1, 0, 0, 0, 1, 0, 1, 0]\<rparr>,
            \<lparr>n_rows = 9, n_cols = 2, mem = [1, 0, 0, 0, 0, 0, 0, 0, 0, 0, 1, 0, 1, 0, 0, 0, 0, 0]\<rparr>)"
    by code_simp
  note th = Generate_dense_shape [of 2 "\<lparr>bitLen = 1\<rparr>" sample_draws
      "\<lparr>n_rows = 9, n_cols = 2, mem = [1, 0, 0, 0, 0, 1, 1, 0, 0, 0, 1, 0, 0, 0, 1, 0, 1, 0]\<rparr>"
      "\<lparr>n_rows = 9, n_cols = 2, mem = [1, 0, 0, 0, 0, 0, 0, 0, 0, 0, 1, 0, 1, 0, 0, 0, 0, 0]\<rparr>"]
  have h: "1 \<le> (2::nat) \<and> bitLen \<lparr>bitLen = 1\<rparr> \<le> 30" by simp
  have r: "\<exists>r. Generate_dense \<lparr>bitLen = 1\<rparr> 2 sample_draws = Inr r"
    using th h by blast
  from th [THEN conjunct2, rule_format, OF g] obtain items where
    v: "Generate_vecs \<lparr>bitLen = 1\<rparr> 2 True sample_draws = Inr items" and
    l: "\<forall>i < 2. length (fst (items ! i)) = 2 * bitLen \<lparr>bitLen = 1\<rparr> + 1"
    by blast
  have "length (fst (items ! 1)) = 3" using l by simp
  then show ?thesis using g r v by blast
qed



text \<open>
  C6. For every input batch whose sequences hold only the values 0, 1 and 2,
  Binarize returns a batch with as many items; item \<open>i\<close> is a single column of
  length \<open>3 * length (input ! i)\<close>, and for each position \<open>j\<close> its entries
  \<open>3 * j\<close>, \<open>3 * j + 1\<close>, \<open>3 * j + 2\<close> form the indicator vector with the single 1
  at offset \<open>input ! i ! j\<close>.
\<close>

theorem Binarize_onehot:
  assumes "\<forall>v \<in> set input. set v \<subseteq> {0, 1, 2}"
  shows "\<exists>out. Binarize input = Inr out \<and> length out = length input
    \<and> (\<forall>i < length input.
          n_cols (out ! i) = 1 \<and> n_rows (out ! i) = 3 * length (input ! i)
          \<and> length (mem (out ! i)) = 3 * length (input ! i)
          \<and> (\<forall>j < length (input ! i). \<forall>k < 3.
                mem (out ! i) ! (3 * j + k) = (if int k = input ! i ! j then 1 else 0)))"
proof -
  have b: "Binarize input = Inr (map encoded input)"
    by (rule Binarize_encoded) (use assms in blast)
  have e: "mem (encoded (input ! i)) ! (3 * j + k) = (if int k = input ! i ! j then 1 else 0)"
    if "i < length input" "j < length (input ! i)" "k < 3" for i j k
  proof -
    have "input ! i ! j \<in> set (input ! i)" and "input ! i \<in> set input"
      using that by simp_all
    then have "input ! i ! j \<in> {0, 1, 2}" using assms by blast
    then have "onehot (input ! i ! j) ! k = (if int k = input ! i ! j then 1 else 0)"
      using that(3) by (rule onehot_nth)
    then show ?thesis
      using nth_concat_onehot [OF that(2,3)] by (simp add: encoded_def)
  qed
  have s: "n_cols (encoded v) = 1 \<and> n_rows (encoded v) = 3 * length v
      \<and> length (mem (encoded v)) = 3 * length v" for v
    by (simp add: encoded_def length_concat_onehot)
  have "\<forall>i < length input.
          n_cols (map encoded input ! i) = 1
          \<and> n_rows (map encoded input ! i) = 3 * length (input ! i)
          \<and> length (mem (map encoded input ! i)) = 3 * length (input ! i)
          \<and> (\<forall>j < length (input ! i). \<forall>k < 3.
                mem (map encoded input ! i) ! (3 * j + k)
                  = (if int k = input ! i ! j then 1 else 0))"
  proof (intro allI impI)
    fix i assume i: "i < length input"
    have m: "map encoded input ! i = encoded (input ! i)" using i by (rule nth_map)
    show "n_cols (map encoded input ! i) = 1
          \<and> n_rows (map encoded input ! i) = 3 * length (input ! i)
          \<and> length (mem (map encoded input ! i)) = 3 * length (input ! i)
          \<and> (\<forall>j < length (input ! i). \<forall>k < 3.
                mem (map encoded input ! i) ! (3 * j + k)
                  = (if int k = input ! i ! j then 1 else 0))"
      unfolding m using s [of "input ! i"] e [OF i] by blast
  qed
  moreover have "length (map encoded input) = length input" by simp
  ultimately show ?thesis using b by blast
qed

theorem Binarize_onehot_witness:
  "\<exists>out. Binarize [[0, 2]] = Inr out \<and> length out = 1 \<and> n_cols (out ! 0) = 1
     \<and> n_rows (out ! 0) = 6 \<and> mem (out ! 0) ! 5 = 1 \<and> mem (out ! 0) ! 4 = 0"
proof -
  have h: "\<forall>v \<in> set [[0, 2 :: int]]. set v \<subseteq> {0, 1, 2}" by simp
  have "\<exists>out. Binarize [[0, 2]] = Inr out \<and> length out = length [[0, 2 :: int]]
    \<and> (\<forall>i < length [[0, 2 :: int]].
          n_cols (out ! i) = 1 \<and> n_rows (out ! i) = 3 * length ([[0, 2 :: int]] ! i)
          \<and> length (mem (out ! i)) = 3 * length ([[0, 2 :: int]] ! i)
          \<and> (\<forall>j < length ([[0, 2 :: int]] ! i). \<forall>k < 3.
                mem (out ! i) ! (3 * j + k) = (if int k = [[0, 2]] ! i ! j then 1 else 0)))"
    by (rule Binarize_onehot [OF h])
  then obtain out where o: "Binarize [[0, 2]] = Inr out"
    and n: "length out = length [[0, 2 :: int]]"
    and p: "\<And>i. i < length [[0, 2 :: int]] \<Longrightarrow>
          n_cols (out ! i) = 1 \<and> n_rows (out ! i) = 3 * length ([[0, 2 :: int]] ! i)
          \<and> length (mem (out ! i)) = 3 * length ([[0, 2 :: int]] ! i)
          \<and> (\<forall>j < length ([[0, 2 :: int]] ! i). \<forall>k < 3.
                mem (out ! i) ! (3 * j + k) = (if int k = [[0, 2]] ! i ! j then 1 else 0))"
    by (elim exE conjE) blast
  have i0: "0 < length [[0, 2 :: int]]" by simp
  note p0 = p [OF i0]
  have c: "n_cols (out ! 0) = 1" using p0 by (elim conjE)
  have "n_rows (out ! 0) = 3 * length ([[0, 2 :: int]] ! 0)" using p0 by (elim conjE)
  then have q: "n_rows (out ! 0) = 6" by simp
  have r: "\<forall>j < length ([[0, 2 :: int]] ! 0). \<forall>k < 3.
      mem (out ! 0) ! (3 * j + k) = (if int k = [[0, 2]] ! 0 ! j then 1 else 0)"
    using p0 by (elim conjE)
  have j1: "1 < length ([[0, 2 :: int]] ! 0)" by simp
  have "mem (out ! 0) ! (3 * 1 + 2) = (if int 2 = [[0, 2]] ! 0 ! 1 then 1 else 0)"
    using r [rule_format, OF j1, of 2] by simp
  then have r5: "mem (out ! 0) ! 5 = 1" by simp
  have "mem (out ! 0) ! (3 * 1 + 1) = (if int 1 = [[0, 2]] ! 0 ! 1 then 1 else 0)"
    using r [rule_format, OF j1, of 1] by simp
  then have r4: "mem (out ! 0) ! 4 = 0" by simp
  show ?thesis using o n c q r5 r4 by simp
qed

text \<open>
  C7. A non-zero sum does not always give its binary representation. For
  \<open>bitLen = 32\<close> and the operands \<open>2 ^ 31 + 1\<close> and \<open>2 ^ 31 - 1\<close> the first loop of
  Generate returns the label \<open>[0]\<close>, though the sum of the operands is \<open>2 ^ 32\<close>:
  the operands are accumulated in \<^verbatim>\<open>int\<close>s, which a 32-bit operand overflows. The
  code's own check stops the same overflow with the domain error when it leaves a
  negative sum, as for the operands \<open>2 ^ 31\<close> and 0.
\<close>

theorem Generate_label_overflow:
  "Generate_vecs \<lparr>bitLen = 32\<rparr> 1 True overflow_draws = Inr [(overflow_input, [0])]
   \<and> decode_be (operandA overflow_input) + decode_be (operandB overflow_input) = 4294967296
   \<and> make_input 32 32 (drawBits (negative_draws 0)) = negative_input
   \<and> decode_be (operandA negative_input) + decode_be (operandB negative_input) = 2147483648
   \<and> Generate_vecs \<lparr>bitLen = 32\<rparr> 1 True negative_draws = Inl DomainError"
  using overflow_vecs overflow_operandA overflow_operandB
    negative_make_input negative_operandA negative_operandB negative_vecs
  by simp

text \<open>
  C8. Constructing an AddTask succeeds for every \<open>bitLen \<ge> 1\<close> and fails with the
  invalid-argument error for \<open>bitLen \<le> 0\<close>, which for the unsigned parameter means
  \<open>bitLen = 0\<close>. The failure is the constructor's own result: no task exists on
  which generation could start.
\<close>

theorem AddTask_construction:
  "(1 \<le> bl \<longrightarrow> AddTask_new bl = Inr \<lparr>bitLen = bl\<rparr>)
   \<and> (bl \<le> 0 \<longrightarrow> AddTask_new bl = Inl InvalidArgument)"
  by (simp add: AddTask_new_def)

theorem AddTask_construction_witness:
  "AddTask_new 4 = Inr \<lparr>bitLen = 4\<rparr> \<and> AddTask_new 0 = Inl InvalidArgument"
  using AddTask_construction [of 4] AddTask_construction [of 0] by simp



end
